theory Spec2Isabelle
  imports
    Complex_Main
    "HOL-Library.AList"
    "HOL-Library.Sublist"
    "HOL-Library.Char_ord"
    "HOL-Library.List_Lexorder"
    "HOL-Library.Product_Lexorder"
begin

section \<open>Python library functions used by the sources\<close>

text \<open>
  Exceptions are values. Only the classes that the sources raise, catch by name or can
  receive from the library calls they make are distinguished.
\<close>

datatype exn =
    FileNotFoundError
  | PermissionError
  | FileExistsError
  | BadGzipFile
  | UnicodeDecodeError
  | JSONDecodeError
  | KeyError
  | ValueError
  | IndexError
  | OSError

text \<open>
  \<^verbatim>\<open>sorted(xs, key=f, reverse=True)\<close> and \<^verbatim>\<open>xs.sort(key=f, reverse=True)\<close>: CPython's
  list sort is stable; for \<^verbatim>\<open>reverse=True\<close> it reverses the list, sorts it stably in
  ascending order and reverses the result, so equal keys keep their original order.
\<close>

definition py_sorted_reverse :: "('a \<Rightarrow> 'k::linorder) \<Rightarrow> 'a list \<Rightarrow> 'a list" where
  "py_sorted_reverse f xs = rev (sort_key f (rev xs))"

text \<open>Slices \<^verbatim>\<open>xs[n:]\<close> and \<^verbatim>\<open>xs[:n]\<close> for a Python int \<open>n\<close> (negative counts from the end).\<close>

definition py_slice_from :: "'a list \<Rightarrow> int \<Rightarrow> 'a list" where
  "py_slice_from xs n = (if n < 0 then drop (nat (int (length xs) + n)) xs else drop (nat n) xs)"

definition py_slice_to :: "'a list \<Rightarrow> int \<Rightarrow> 'a list" where
  "py_slice_to xs n = (if n < 0 then take (nat (int (length xs) + n)) xs else take (nat n) xs)"

definition startswith :: "string \<Rightarrow> string \<Rightarrow> bool" where
  "startswith s p = prefix p s"

definition endswith :: "string \<Rightarrow> string \<Rightarrow> bool" where
  "endswith s p = suffix p s"

subsection \<open>\<^verbatim>\<open>datetime.strptime(s, "%Y-%m-%d %H:%M:%S")\<close>\<close>

text \<open>
  \<^verbatim>\<open>_strptime\<close> turns the format into the regular expression
  \<^verbatim>\<open>(?P<Y>\d\d\d\d)-(?P<m>1[0-2]|0[1-9]|[1-9])-(?P<d>3[0-1]|[1-2]\d|0[1-9]|[1-9]| [1-9])\s+(?P<H>2[0-3]|[0-1]\d|\d):(?P<M>[0-5]\d|\d):(?P<S>6[0-1]|[0-5]\d|\d)\<close>,
  takes its first match at the start of the string (alternatives in order, with
  backtracking), raises \<^verbatim>\<open>ValueError\<close> when there is none or when the match does not
  reach the end of the string, and builds a \<^verbatim>\<open>datetime\<close>, whose constructor raises
  \<^verbatim>\<open>ValueError\<close> for a field out of range. A matcher returns its matches in the order
  the backtracking search tries them. A character of a string is a code point below 256:
  among these \<^verbatim>\<open>\d\<close> matches the ASCII digits, and \<^verbatim>\<open>\s\<close> matches 9 to 13, 28 to 32, 133
  and 160.
\<close>

type_synonym datetime = "nat \<times> nat \<times> nat \<times> nat \<times> nat \<times> nat"

type_synonym 'a matcher = "string \<Rightarrow> ('a \<times> string) list"

definition digit_val :: "char \<Rightarrow> nat" where
  "digit_val c = of_char c - 48"

definition in_range :: "char \<Rightarrow> char \<Rightarrow> char \<Rightarrow> bool" where
  "in_range lo hi c \<longleftrightarrow> (of_char lo :: nat) \<le> of_char c \<and> (of_char c :: nat) \<le> of_char hi"

definition is_space :: "char \<Rightarrow> bool" where
  "is_space c \<longleftrightarrow> (of_char c :: nat) \<in> {9, 10, 11, 12, 13, 28, 29, 30, 31, 32, 133, 160}"

fun one_digit :: "char \<Rightarrow> char \<Rightarrow> nat matcher" where
  "one_digit lo hi (c # r) = (if in_range lo hi c then [(digit_val c, r)] else [])"
| "one_digit lo hi [] = []"

fun two_digits :: "char \<Rightarrow> char \<Rightarrow> char \<Rightarrow> char \<Rightarrow> nat matcher" where
  "two_digits lo1 hi1 lo2 hi2 (a # b # r) =
     (if in_range lo1 hi1 a \<and> in_range lo2 hi2 b then [(10 * digit_val a + digit_val b, r)] else [])"
| "two_digits lo1 hi1 lo2 hi2 _ = []"

fun lit :: "char \<Rightarrow> unit matcher" where
  "lit x (c # r) = (if c = x then [((), r)] else [])"
| "lit x [] = []"

fun re_spaces :: "unit matcher" where
  "re_spaces (c # r) = (if is_space c then re_spaces r @ [((), r)] else [])"
| "re_spaces [] = []"

fun re_Y :: "nat matcher" where
  "re_Y (a # b # c # d # r) =
     (if in_range CHR ''0'' CHR ''9'' a \<and> in_range CHR ''0'' CHR ''9'' b
         \<and> in_range CHR ''0'' CHR ''9'' c \<and> in_range CHR ''0'' CHR ''9'' d
      then [(1000 * digit_val a + 100 * digit_val b + 10 * digit_val c + digit_val d, r)] else [])"
| "re_Y _ = []"

definition re_m :: "nat matcher" where
  "re_m s = two_digits CHR ''1'' CHR ''1'' CHR ''0'' CHR ''2'' s
          @ two_digits CHR ''0'' CHR ''0'' CHR ''1'' CHR ''9'' s
          @ one_digit CHR ''1'' CHR ''9'' s"

definition re_d :: "nat matcher" where
  "re_d s = two_digits CHR ''3'' CHR ''3'' CHR ''0'' CHR ''1'' s
          @ two_digits CHR ''1'' CHR ''2'' CHR ''0'' CHR ''9'' s
          @ two_digits CHR ''0'' CHR ''0'' CHR ''1'' CHR ''9'' s
          @ one_digit CHR ''1'' CHR ''9'' s
          @ List.bind (lit CHR '' '' s) (\<lambda>(_, r). one_digit CHR ''1'' CHR ''9'' r)"

definition re_H :: "nat matcher" where
  "re_H s = two_digits CHR ''2'' CHR ''2'' CHR ''0'' CHR ''3'' s
          @ two_digits CHR ''0'' CHR ''1'' CHR ''0'' CHR ''9'' s
          @ one_digit CHR ''0'' CHR ''9'' s"

definition re_M :: "nat matcher" where
  "re_M s = two_digits CHR ''0'' CHR ''5'' CHR ''0'' CHR ''9'' s
          @ one_digit CHR ''0'' CHR ''9'' s"

definition re_S :: "nat matcher" where
  "re_S s = two_digits CHR ''6'' CHR ''6'' CHR ''0'' CHR ''1'' s
          @ two_digits CHR ''0'' CHR ''5'' CHR ''0'' CHR ''9'' s
          @ one_digit CHR ''0'' CHR ''9'' s"

definition format_regex :: "datetime matcher" where
  "format_regex s =
     List.bind (re_Y s) (\<lambda>(y, s1).
     List.bind (lit CHR ''-'' s1) (\<lambda>(_, s2).
     List.bind (re_m s2) (\<lambda>(m, s3).
     List.bind (lit CHR ''-'' s3) (\<lambda>(_, s4).
     List.bind (re_d s4) (\<lambda>(d, s5).
     List.bind (re_spaces s5) (\<lambda>(_, s6).
     List.bind (re_H s6) (\<lambda>(H, s7).
     List.bind (lit CHR '':'' s7) (\<lambda>(_, s8).
     List.bind (re_M s8) (\<lambda>(M, s9).
     List.bind (lit CHR '':'' s9) (\<lambda>(_, s10).
     List.bind (re_S s10) (\<lambda>(S, s11). [((y, m, d, H, M, S), s11)])))))))))))"

definition is_leap :: "nat \<Rightarrow> bool" where
  "is_leap y \<longleftrightarrow> y mod 4 = 0 \<and> (y mod 100 \<noteq> 0 \<or> y mod 400 = 0)"

definition days_in_month :: "nat \<Rightarrow> nat \<Rightarrow> nat" where
  "days_in_month y m =
     (if m = 2 then (if is_leap y then 29 else 28)
      else if m \<in> {4, 6, 9, 11} then 30 else 31)"

text \<open>The range checks of the \<^verbatim>\<open>datetime\<close> constructor.\<close>

definition valid_datetime :: "datetime \<Rightarrow> bool" where
  "valid_datetime dt = (case dt of (y, m, d, H, M, S) \<Rightarrow>
     1 \<le> y \<and> y \<le> 9999 \<and> 1 \<le> m \<and> m \<le> 12 \<and> 1 \<le> d \<and> d \<le> days_in_month y m
     \<and> H \<le> 23 \<and> M \<le> 59 \<and> S \<le> 59)"

definition strptime :: "string \<Rightarrow> exn + datetime" where
  "strptime s =
     (case format_regex s of
        [] \<Rightarrow> Inl ValueError
      | (dt, rest) # _ \<Rightarrow>
          if rest \<noteq> [] then Inl ValueError
          else if valid_datetime dt then Inr dt else Inl ValueError)"

text \<open>\<^verbatim>\<open>dt.strftime("%Y-%m-%d %H:%M:%S")\<close> with zero-padded fields, as
  \<^verbatim>\<open>get_formatted_time\<close> of \<^verbatim>\<open>utils/time_utils.py\<close> produces the stored timestamps.\<close>

definition digit_char :: "nat \<Rightarrow> char" where
  "digit_char n = char_of (48 + n mod 10)"

definition pad2 :: "nat \<Rightarrow> string" where
  "pad2 n = [digit_char (n div 10), digit_char n]"

definition pad4 :: "nat \<Rightarrow> string" where
  "pad4 n = [digit_char (n div 1000), digit_char (n div 100), digit_char (n div 10), digit_char n]"

definition strftime :: "datetime \<Rightarrow> string" where
  "strftime dt = (case dt of (y, m, d, H, M, S) \<Rightarrow>
     pad4 y @ ''-'' @ pad2 m @ ''-'' @ pad2 d @ '' '' @ pad2 H @ '':'' @ pad2 M @ '':'' @ pad2 S)"

text \<open>A timestamp is in the canonical \<^verbatim>\<open>YYYY-MM-DD HH:MM:SS\<close> format when it is the
  zero-padded rendering of the date-time it denotes.\<close>

definition canonical :: "string \<Rightarrow> bool" where
  "canonical ts = (case strptime ts of Inl _ \<Rightarrow> False | Inr dt \<Rightarrow> strftime dt = ts)"

subsection \<open>Decoding a text file opened with \<^verbatim>\<open>encoding='utf-8'\<close>\<close>

text \<open>Reading raises \<^verbatim>\<open>UnicodeDecodeError\<close> unless the bytes are well-formed UTF-8.\<close>

definition cont_byte :: "nat \<Rightarrow> bool" where
  "cont_byte b \<longleftrightarrow> 128 \<le> b \<and> b \<le> 191"

fun utf8_valid :: "nat list \<Rightarrow> bool" where
  "utf8_valid [] = True"
| "utf8_valid [a] = (a < 128)"
| "utf8_valid [a, b] =
     (if a < 128 then utf8_valid [b] else 194 \<le> a \<and> a \<le> 223 \<and> cont_byte b)"
| "utf8_valid [a, b, c] =
     (if a < 128 then utf8_valid [b, c]
      else if 194 \<le> a \<and> a \<le> 223 then cont_byte b \<and> utf8_valid [c]
      else 224 \<le> a \<and> a \<le> 239 \<and> cont_byte b \<and> cont_byte c
           \<and> (a = 224 \<longrightarrow> 160 \<le> b) \<and> (a = 237 \<longrightarrow> b \<le> 159))"
| "utf8_valid (a # b # c # d # r) =
     (if a < 128 then utf8_valid (b # c # d # r)
      else if 194 \<le> a \<and> a \<le> 223 then cont_byte b \<and> utf8_valid (c # d # r)
      else if 224 \<le> a \<and> a \<le> 239 then
        cont_byte b \<and> cont_byte c \<and> (a = 224 \<longrightarrow> 160 \<le> b) \<and> (a = 237 \<longrightarrow> b \<le> 159)
        \<and> utf8_valid (d # r)
      else 240 \<le> a \<and> a \<le> 244 \<and> cont_byte b \<and> cont_byte c \<and> cont_byte d
           \<and> (a = 240 \<longrightarrow> 144 \<le> b) \<and> (a = 244 \<longrightarrow> b \<le> 143) \<and> utf8_valid r)"

definition decodable :: "string \<Rightarrow> bool" where
  "decodable bytes = utf8_valid (map of_char bytes)"

section \<open>The tracked-file index (\<^verbatim>\<open>core/version_manager.py\<close>)\<close>

text \<open>
  A version record of \<^verbatim>\<open>tracked_files.json\<close>. The \<^verbatim>\<open>timestamp\<close> key can be missing
  from a loaded record (\<^verbatim>\<open>x[1]["timestamp"]\<close> then raises \<^verbatim>\<open>KeyError\<close>, while
  \<^verbatim>\<open>info.get("timestamp", "")\<close> gives the empty string). A dict keeps insertion order:
  it is an association list.
\<close>

record version_info =
  timestamp :: "string option"
  commit_message :: string
  username :: string
  previous_hash :: "string option"

type_synonym versions = "(string \<times> version_info) list"

text \<open>An entry of the index is \<^verbatim>\<open>{"versions": {...}}\<close>; \<open>None\<close> is an entry without the
  \<^verbatim>\<open>"versions"\<close> key.\<close>

type_synonym tracked_files = "(string \<times> versions option) list"

text \<open>
  What the version manager gets from its surroundings: the JSON decoder (\<open>None\<close> is
  \<^verbatim>\<open>json.JSONDecodeError\<close>), the chunks \<^verbatim>\<open>json.dump\<close> writes one after the other,
  the result of \<^verbatim>\<open>os.getlogin()\<close> (\<open>None\<close> when it raises \<^verbatim>\<open>OSError\<close>, as it does
  without a controlling terminal), and the number of chunks a write completes before
  the device fails (\<open>None\<close> when it does not fail).
\<close>

record vm_env =
  json_loads :: "string \<Rightarrow> tracked_files option"
  json_chunks :: "tracked_files \<Rightarrow> string list"
  getlogin :: "string option"
  write_fault :: "nat option"

text \<open>
  The persisted state: the bytes of \<^verbatim>\<open>tracked_files.json\<close> (\<open>None\<close> when the file is
  missing), whether the file can be opened for writing, and the lines appended to
  \<^verbatim>\<open>error_log.txt\<close> (user and message; the time stamp of a line is left out).
\<close>

record vm_state =
  index_file :: "string option"
  index_writable :: bool
  vm_error_log :: "(string \<times> string) list"

definition vm_log_error :: "vm_env \<Rightarrow> string \<Rightarrow> vm_state \<Rightarrow> (exn + unit) \<times> vm_state" where
  "vm_log_error env msg st =
     (case getlogin env of
        None \<Rightarrow> (Inl OSError, st)
      | Some user \<Rightarrow> (Inr (), st\<lparr>vm_error_log := vm_error_log st @ [(user, msg)]\<rparr>))"

definition load_tracked_files :: "vm_env \<Rightarrow> vm_state \<Rightarrow> (exn + tracked_files) \<times> vm_state" where
  "load_tracked_files env st =
     (case index_file st of
        None \<Rightarrow> (Inr [], st)
      | Some bytes \<Rightarrow>
          if \<not> decodable bytes then (Inl UnicodeDecodeError, st)
          else (case json_loads env bytes of
                  Some tracked \<Rightarrow> (Inr tracked, st)
                | None \<Rightarrow>
                    (case vm_log_error env ''Error: tracked_files.json is corrupted.'' st of
                       (Inl e, st') \<Rightarrow> (Inl e, st')
                     | (Inr _, st') \<Rightarrow> (Inr [], st'))))"

text \<open>
  \<^verbatim>\<open>open(path, "w")\<close> truncates the file when it opens it; \<^verbatim>\<open>json.dump\<close> then writes
  chunk after chunk. An exception is logged and raised again.
\<close>

definition vm_reraise :: "vm_env \<Rightarrow> string \<Rightarrow> exn \<Rightarrow> vm_state \<Rightarrow> (exn + 'a) \<times> vm_state" where
  "vm_reraise env msg e st =
     (case vm_log_error env msg st of
        (Inl e', st') \<Rightarrow> (Inl e', st')
      | (Inr _, st') \<Rightarrow> (Inl e, st'))"

definition save_tracked_files :: "vm_env \<Rightarrow> tracked_files \<Rightarrow> vm_state \<Rightarrow> (exn + unit) \<times> vm_state" where
  "save_tracked_files env tracked st =
     (if \<not> index_writable st then
        vm_reraise env ''Failed to save tracked files'' PermissionError st
      else (case write_fault env of
              None \<Rightarrow> (Inr (), st\<lparr>index_file := Some (concat (json_chunks env tracked))\<rparr>)
            | Some k \<Rightarrow>
                vm_reraise env ''Failed to save tracked files'' OSError
                  (st\<lparr>index_file := Some (concat (take k (json_chunks env tracked)))\<rparr>)))"

subsection \<open>The most recent version, by parsed time (\<^verbatim>\<open>has_file_changed\<close>)\<close>

fun sort_keys :: "versions \<Rightarrow> exn + (datetime \<times> string \<times> version_info) list" where
  "sort_keys [] = Inr []"
| "sort_keys ((h, info) # rest) =
     (case timestamp info of
        None \<Rightarrow> Inl KeyError
      | Some ts \<Rightarrow>
          (case strptime ts of
             Inl e \<Rightarrow> Inl e
           | Inr dt \<Rightarrow>
               (case sort_keys rest of
                  Inl e \<Rightarrow> Inl e
                | Inr ks \<Rightarrow> Inr ((dt, h, info) # ks))))"

text \<open>\<^verbatim>\<open>sorted(versions.items(), key=lambda x: datetime.strptime(...), reverse=True)[0]\<close>\<close>

definition latest_version :: "versions \<Rightarrow> exn + (string \<times> version_info)" where
  "latest_version vs =
     (case sort_keys vs of
        Inl e \<Rightarrow> Inl e
      | Inr ks \<Rightarrow>
          (case py_sorted_reverse fst ks of
             [] \<Rightarrow> Inl IndexError
           | k # _ \<Rightarrow> Inr (snd k)))"

text \<open>
  \<^verbatim>\<open>has_file_changed\<close>; the first argument is the outcome of \<^verbatim>\<open>calculate_file_hash\<close>
  on the file, the second the normalised path.
\<close>

definition has_file_changed ::
  "vm_env \<Rightarrow> (exn + string) \<Rightarrow> string \<Rightarrow> tracked_files \<Rightarrow> vm_state
     \<Rightarrow> (exn + (bool \<times> string \<times> string)) \<times> vm_state" where
  "has_file_changed env hashed normalized_path tracked st =
     (case hashed of
        Inl e \<Rightarrow> vm_reraise env ''Failed to check file changes'' e st
      | Inr current_hash \<Rightarrow>
          (case map_of tracked normalized_path of
             None \<Rightarrow> (Inr (True, current_hash, []), st)
           | Some entry \<Rightarrow>
               (let vs = (case entry of None \<Rightarrow> [] | Some vs \<Rightarrow> vs) in
                if vs = [] then (Inr (True, current_hash, []), st)
                else (case latest_version vs of
                        Inl e \<Rightarrow> vm_reraise env ''Failed to check file changes'' e st
                      | Inr latest \<Rightarrow>
                          (Inr (current_hash \<noteq> fst latest, current_hash, fst latest), st)))))"

subsection \<open>The most recent version, by raw string (\<^verbatim>\<open>_get_last_commit\<close> of
  \<^verbatim>\<open>ui/dialogs/commit_dialog.py\<close>)\<close>

text \<open>The loop's variables are \<^verbatim>\<open>latest_version\<close> and \<^verbatim>\<open>latest_timestamp\<close>;
  \<^verbatim>\<open>not latest_timestamp\<close> holds for \<^verbatim>\<open>None\<close> and for the empty string.\<close>

definition last_commit_step ::
  "version_info option \<times> string option \<Rightarrow> string \<times> version_info
     \<Rightarrow> version_info option \<times> string option" where
  "last_commit_step acc item =
     (let ts = (case timestamp (snd item) of None \<Rightarrow> [] | Some t \<Rightarrow> t) in
      if (case snd acc of None \<Rightarrow> True | Some l \<Rightarrow> l = [] \<or> ts > l)
      then (Some (snd item), Some ts) else acc)"

definition last_commit_loop :: "versions \<Rightarrow> version_info option \<times> string option" where
  "last_commit_loop vs = foldl last_commit_step (None, None) vs"

definition get_last_commit :: "vm_env \<Rightarrow> string \<Rightarrow> vm_state \<Rightarrow> string option \<times> vm_state" where
  "get_last_commit env normalized_path st =
     (case load_tracked_files env st of
        (Inl e, st') \<Rightarrow> (None, st')
      | (Inr tracked, st') \<Rightarrow>
          (case map_of tracked normalized_path of
             None \<Rightarrow> (None, st')
           | Some entry \<Rightarrow>
               (let vs = (case entry of None \<Rightarrow> [] | Some vs \<Rightarrow> vs) in
                if vs = [] then (None, st')
                else (case fst (last_commit_loop vs) of
                        None \<Rightarrow> (None, st')
                      | Some info \<Rightarrow> (Some (commit_message info), st')))))"

definition all_canonical :: "versions \<Rightarrow> bool" where
  "all_canonical vs =
     list_all (\<lambda>item. case timestamp (snd item) of None \<Rightarrow> False | Some ts \<Rightarrow> canonical ts) vs"

section \<open>Files and paths\<close>

text \<open>
  A normalised path is its directory (\<^verbatim>\<open>os.path.dirname\<close>) and its last component
  (\<^verbatim>\<open>os.path.basename\<close>); \<^verbatim>\<open>os.path.join(dir, name)\<close> builds one, and the path is
  written with one separator between the two unless the directory is empty or ends with
  the separator, as the root does. All paths handed to
  the operations below are the results of \<^verbatim>\<open>os.path.normpath\<close>, which the sources apply
  first and which leaves such a path unchanged.
\<close>

type_synonym path = "string \<times> string"

definition dir_join :: "string \<Rightarrow> string \<Rightarrow> string" where
  "dir_join d n = d @ ''/'' @ n"

definition path_str :: "path \<Rightarrow> string" where
  "path_str p =
     (if fst p = [] \<or> endswith (fst p) ''/'' then fst p @ snd p else dir_join (fst p) (snd p))"

text \<open>\<^verbatim>\<open>os.path.splitext\<close> on a last component: the extension starts at the last dot,
  unless only dots come before it.\<close>

definition splitext :: "string \<Rightarrow> string \<times> string" where
  "splitext name =
     (let after = length (takeWhile (\<lambda>c. c \<noteq> CHR ''.'') (rev name)) in
      if after = length name then (name, [])
      else (let root = take (length name - after - 1) name in
            if list_ex (\<lambda>c. c \<noteq> CHR ''.'') root then (root, drop (length root) name)
            else (name, [])))"

definition lower_char :: "char \<Rightarrow> char" where
  "lower_char c =
     (if 65 \<le> (of_char c :: nat) \<and> (of_char c :: nat) \<le> 90 then char_of (of_char c + 32 :: nat)
      else c)"

definition lower :: "string \<Rightarrow> string" where
  "lower s = map lower_char s"

text \<open>
  A file has its bytes, its modification and creation times, and may be held open by
  another application so that opening it for writing or deleting it is refused
  (\<^verbatim>\<open>PermissionError\<close>); reading a held file succeeds. The file system lists its
  entries in the order \<^verbatim>\<open>os.listdir\<close> reports them.
\<close>

record file_entry =
  content :: string
  mtime :: real
  ctime :: real
  locked :: bool

type_synonym filesystem = "(path \<times> file_entry) list"

definition path_exists :: "filesystem \<Rightarrow> path \<Rightarrow> bool" where
  "path_exists fs p \<longleftrightarrow> map_of fs p \<noteq> None"

definition listdir :: "filesystem \<Rightarrow> string \<Rightarrow> string list" where
  "listdir fs d = remdups (map (snd \<circ> fst) (filter (\<lambda>e. fst (fst e) = d) fs))"

definition read_file :: "filesystem \<Rightarrow> path \<Rightarrow> exn + string" where
  "read_file fs p = (case map_of fs p of None \<Rightarrow> Inl FileNotFoundError | Some f \<Rightarrow> Inr (content f))"

text \<open>\<^verbatim>\<open>open(p, 'wb')\<close>, writing \<open>data\<close> and closing at time \<open>now\<close>.\<close>

definition write_file :: "filesystem \<Rightarrow> path \<Rightarrow> string \<Rightarrow> real \<Rightarrow> exn + filesystem" where
  "write_file fs p data now =
     (case map_of fs p of
        None \<Rightarrow> Inr (AList.update p \<lparr>content = data, mtime = now, ctime = now, locked = False\<rparr> fs)
      | Some f \<Rightarrow>
          if locked f then Inl PermissionError
          else Inr (AList.update p (f\<lparr>content := data, mtime := now\<rparr>) fs))"

definition remove_file :: "filesystem \<Rightarrow> path \<Rightarrow> exn + filesystem" where
  "remove_file fs p =
     (case map_of fs p of
        None \<Rightarrow> Inl FileNotFoundError
      | Some f \<Rightarrow> if locked f then Inl PermissionError else Inr (AList.delete p fs))"

text \<open>\<^verbatim>\<open>os.replace(src, dst)\<close> overwrites the destination; \<^verbatim>\<open>os.rename(src, dst)\<close> does
  the same except on Windows, where it raises \<^verbatim>\<open>FileExistsError\<close> when the destination
  exists.\<close>

definition replace_file :: "filesystem \<Rightarrow> path \<Rightarrow> path \<Rightarrow> exn + filesystem" where
  "replace_file fs src dst =
     (case map_of fs src of
        None \<Rightarrow> Inl FileNotFoundError
      | Some f \<Rightarrow>
          (case map_of fs dst of
             None \<Rightarrow> Inr (AList.update dst f (AList.delete src fs))
           | Some g \<Rightarrow>
               if locked g then Inl PermissionError
               else if src = dst then Inr fs
               else Inr (AList.update dst f (AList.delete src fs))))"

definition rename_file :: "bool \<Rightarrow> filesystem \<Rightarrow> path \<Rightarrow> path \<Rightarrow> exn + filesystem" where
  "rename_file windows fs src dst =
     (if windows \<and> path_exists fs src \<and> path_exists fs dst \<and> src \<noteq> dst then Inl FileExistsError
      else replace_file fs src dst)"

text \<open>\<^verbatim>\<open>shutil.copy2(src, dst)\<close>: the bytes and the modification time; copying a file onto
  itself raises \<^verbatim>\<open>SameFileError\<close>, an \<^verbatim>\<open>OSError\<close>.\<close>

definition copy2 :: "filesystem \<Rightarrow> path \<Rightarrow> path \<Rightarrow> real \<Rightarrow> exn + filesystem" where
  "copy2 fs src dst now =
     (case map_of fs src of
        None \<Rightarrow> Inl FileNotFoundError
      | Some f \<Rightarrow>
          if src = dst then Inl OSError
          else (case write_file fs dst (content f) now of
                  Inl e \<Rightarrow> Inl e
                | Inr fs' \<Rightarrow>
                    (case map_of fs' dst of
                       None \<Rightarrow> Inr fs'
                     | Some g \<Rightarrow> Inr (AList.update dst (g\<lparr>mtime := mtime f\<rparr>) fs'))))"

section \<open>The backup store (\<^verbatim>\<open>core/backup_manager.py\<close>)\<close>

text \<open>
  What the backup manager gets from its surroundings: its backup folder, MD5 as a
  function from the encoded directory to the hex digest, the gzip coder and decoder
  (\<open>None\<close> when the bytes are not a gzip stream), whether it was given a version manager
  and that manager's surroundings, the platform, and the formatted current time.
\<close>

record bm_env =
  backup_folder :: string
  md5_hexdigest :: "string \<Rightarrow> string"
  gzip_compress :: "string \<Rightarrow> string"
  gzip_decompress :: "string \<Rightarrow> string option"
  has_version_manager :: bool
  vm_environment :: vm_env
  is_windows :: bool
  formatted_time :: string

text \<open>
  The state the operations read and change: the file system, the negative cache
  \<^verbatim>\<open>_known_missing_backups\<close>, the lines of the error log, the error boxes shown to the
  user, and the version manager's persisted state.
\<close>

record bm_state =
  fs :: filesystem
  known_missing_backups :: "string set"
  bm_error_log :: "string list"
  error_boxes :: "string list"
  vm :: vm_state

record backup =
  b_path :: path
  b_hash :: string
  b_mtime :: real

definition bm_log_error :: "string \<Rightarrow> bm_state \<Rightarrow> bm_state" where
  "bm_log_error msg st = st\<lparr>bm_error_log := bm_error_log st @ [msg]\<rparr>"

definition version_dir :: "bm_env \<Rightarrow> path \<Rightarrow> string" where
  "version_dir env normalized_path =
     dir_join (dir_join (backup_folder env) ''versions'')
       (take 8 (md5_hexdigest env (fst normalized_path)) @ ''_'' @ snd normalized_path)"

definition get_backup_path :: "bm_env \<Rightarrow> path \<Rightarrow> string \<Rightarrow> path" where
  "get_backup_path env normalized_path file_hash =
     (version_dir env normalized_path, file_hash @ ''.gz'')"

text \<open>The location of the old layout, which only \<^verbatim>\<open>check_backup_exists\<close> looks at.\<close>

definition old_backup_path :: "bm_env \<Rightarrow> path \<Rightarrow> string \<Rightarrow> path" where
  "old_backup_path env normalized_path file_hash =
     (dir_join (dir_join (backup_folder env) ''versions'') (snd normalized_path), file_hash @ ''.gz'')"

definition get_cache_key :: "path \<Rightarrow> string \<Rightarrow> string" where
  "get_cache_key normalized_path file_hash = path_str normalized_path @ ''|'' @ file_hash"

definition clear_missing_cache_for_file :: "path \<Rightarrow> bm_state \<Rightarrow> bm_state" where
  "clear_missing_cache_for_file normalized_path st =
     st\<lparr>known_missing_backups :=
          {key \<in> known_missing_backups st. \<not> startswith key (path_str normalized_path @ ''|'')}\<rparr>"

definition check_backup_exists :: "bm_env \<Rightarrow> path \<Rightarrow> string \<Rightarrow> bm_state \<Rightarrow> bool \<times> bm_state" where
  "check_backup_exists env normalized_path file_hash st =
     (let cache_key = get_cache_key normalized_path file_hash in
      if cache_key \<in> known_missing_backups st then (False, st)
      else (let exists1 = path_exists (fs st) (get_backup_path env normalized_path file_hash);
                exists2 = (if \<not> exists1
                           then path_exists (fs st) (old_backup_path env normalized_path file_hash)
                           else exists1)
            in if \<not> exists2
               then (False, st\<lparr>known_missing_backups := insert cache_key (known_missing_backups st)\<rparr>)
               else (True, st)))"

definition get_all_backup_files :: "bm_env \<Rightarrow> path \<Rightarrow> bm_state \<Rightarrow> backup list" where
  "get_all_backup_files env normalized_path st =
     (let vdir = fst (get_backup_path env normalized_path ''dummy'');
          backup_files =
            List.map_filter
              (\<lambda>filename.
                 if endswith filename ''.gz''
                 then (case map_of (fs st) (vdir, filename) of
                         None \<Rightarrow> None
                       | Some f \<Rightarrow> Some \<lparr>b_path = (vdir, filename),
                                        b_hash = fst (splitext filename), b_mtime = mtime f\<rparr>)
                 else None)
              (listdir (fs st) vdir)
      in py_sorted_reverse b_mtime backup_files)"

text \<open>\<^verbatim>\<open>_cleanup_old_bak_files\<close>: the loop over \<^verbatim>\<open>temp_backups\<close> stops at the first
  exception, which is logged and not raised.\<close>

fun cleanup_bak_loop :: "string \<Rightarrow> real \<Rightarrow> string list \<Rightarrow> bm_state \<Rightarrow> bm_state" where
  "cleanup_bak_loop d now [] st = st"
| "cleanup_bak_loop d now (filename # rest) st =
     (if endswith filename ''.bak'' then
        (case map_of (fs st) (d, filename) of
           None \<Rightarrow> bm_log_error ''Failed to cleanup old .bak files'' st
         | Some f \<Rightarrow>
             if ctime f < now - 86400 then
               (case remove_file (fs st) (d, filename) of
                  Inl e \<Rightarrow> bm_log_error ''Failed to cleanup old .bak files'' st
                | Inr fs' \<Rightarrow> cleanup_bak_loop d now rest (st\<lparr>fs := fs'\<rparr>))
             else cleanup_bak_loop d now rest st)
      else cleanup_bak_loop d now rest st)"

definition cleanup_old_bak_files :: "bm_env \<Rightarrow> real \<Rightarrow> bm_state \<Rightarrow> bm_state" where
  "cleanup_old_bak_files env now st =
     (let temp_backup_dir = dir_join (backup_folder env) ''temp_backups''
      in cleanup_bak_loop temp_backup_dir now (listdir (fs st) temp_backup_dir) st)"

text \<open>
  The body of the deletion loop of \<^verbatim>\<open>_clean_old_backups\<close>. The dict \<^verbatim>\<open>tracked_files\<close>
  is changed in place; the model passes it along with the state.
\<close>

definition del_version :: "string \<Rightarrow> string \<Rightarrow> tracked_files \<Rightarrow> tracked_files" where
  "del_version key file_hash tracked =
     (case map_of tracked key of
        Some (Some vs) \<Rightarrow>
          if map_of vs file_hash \<noteq> None
          then AList.map_entry key (map_option (AList.delete file_hash)) tracked
          else tracked
      | _ \<Rightarrow> tracked)"

definition delete_backup :: "path \<Rightarrow> bm_state \<times> tracked_files \<Rightarrow> backup \<Rightarrow> bm_state \<times> tracked_files" where
  "delete_backup normalized_path acc b =
     (case remove_file (fs (fst acc)) (b_path b) of
        Inl e \<Rightarrow> (bm_log_error ''Failed to delete backup'' (fst acc), snd acc)
      | Inr fs' \<Rightarrow>
          ((fst acc)\<lparr>fs := fs',
                    known_missing_backups :=
                      insert (get_cache_key normalized_path (b_hash b))
                             (known_missing_backups (fst acc))\<rparr>,
           del_version (path_str normalized_path) (b_hash b) (snd acc)))"

definition clean_old_backups ::
  "bm_env \<Rightarrow> path \<Rightarrow> int \<Rightarrow> tracked_files \<Rightarrow> real \<Rightarrow> bm_state
     \<Rightarrow> (exn + tracked_files) \<times> bm_state" where
  "clean_old_backups env normalized_path max_backups tracked now st =
     (let all_backups = get_all_backup_files env normalized_path st in
      if all_backups = [] then (Inr tracked, st)
      else if int (length all_backups) > max_backups then
        (let backups_to_delete = py_slice_from all_backups max_backups;
             acc = foldl (delete_backup normalized_path) (st, tracked) backups_to_delete;
             st1 = fst acc; tracked1 = snd acc
         in if has_version_manager env \<and> map_of tracked1 (path_str normalized_path) \<noteq> None then
              (case save_tracked_files (vm_environment env) tracked1 (vm st1) of
                 (Inl e, v) \<Rightarrow> (Inl e, bm_log_error ''Failed to clean old backups'' (st1\<lparr>vm := v\<rparr>))
               | (Inr _, v) \<Rightarrow> (Inr tracked1, cleanup_old_bak_files env now (st1\<lparr>vm := v\<rparr>)))
            else (Inr tracked1, cleanup_old_bak_files env now st1))
      else (Inr tracked, cleanup_old_bak_files env now st))"

text \<open>
  \<^verbatim>\<open>create_backup\<close>. \<open>settings\<close> is the value under \<^verbatim>\<open>'max_backups'\<close> when the
  settings have one. The source is opened before the blob is opened for writing, which
  empties the blob: a file that is its own blob is read as empty.
\<close>

definition create_backup ::
  "bm_env \<Rightarrow> path \<Rightarrow> string \<Rightarrow> int option \<Rightarrow> real \<Rightarrow> bm_state \<Rightarrow> (exn + path) \<times> bm_state" where
  "create_backup env normalized_path file_hash settings now st =
     (let backup_path = get_backup_path env normalized_path file_hash;
          st1 = clear_missing_cache_for_file normalized_path st
      in case read_file (fs st1) normalized_path of
           Inl e \<Rightarrow> (Inl e, bm_log_error ''Failed to create backup'' st1)
         | Inr data \<Rightarrow>
             (case write_file (fs st1) backup_path
                     (gzip_compress env (if normalized_path = backup_path then [] else data)) now of
                Inl e \<Rightarrow> (Inl e, bm_log_error ''Failed to create backup'' st1)
              | Inr fs2 \<Rightarrow>
                  (let st2 = st1\<lparr>fs := fs2\<rparr> in
                   case (if has_version_manager env
                         then load_tracked_files (vm_environment env) (vm st2)
                         else (Inr [], vm st2)) of
                     (Inl e, v) \<Rightarrow> (Inl e, bm_log_error ''Failed to create backup'' (st2\<lparr>vm := v\<rparr>))
                   | (Inr tracked, v) \<Rightarrow>
                       (let max_backups = (case settings of None \<Rightarrow> 5 | Some m \<Rightarrow> m) in
                        case clean_old_backups env normalized_path max_backups tracked now
                               (st2\<lparr>vm := v\<rparr>) of
                          (Inl e, st3) \<Rightarrow> (Inl e, bm_log_error ''Failed to create backup'' st3)
                        | (Inr _, st3) \<Rightarrow> (Inr backup_path, st3)))))"

definition get_version_content ::
  "bm_env \<Rightarrow> path \<Rightarrow> string \<Rightarrow> bm_state \<Rightarrow> (exn + string) \<times> bm_state" where
  "get_version_content env normalized_path file_hash st =
     (let backup_path = get_backup_path env normalized_path file_hash in
      case check_backup_exists env normalized_path file_hash st of
        (False, st1) \<Rightarrow> (Inl FileNotFoundError, bm_log_error ''Failed to read version content'' st1)
      | (True, st1) \<Rightarrow>
          (case read_file (fs st1) backup_path of
             Inl e \<Rightarrow> (Inl e, bm_log_error ''Failed to read version content'' st1)
           | Inr bytes \<Rightarrow>
               (case gzip_decompress env bytes of
                  None \<Rightarrow> (Inl BadGzipFile, bm_log_error ''Failed to read version content'' st1)
                | Some data \<Rightarrow> (Inr data, st1))))"

definition get_temp_backup_path :: "bm_env \<Rightarrow> path \<Rightarrow> path" where
  "get_temp_backup_path env normalized_path =
     (let timestamp =
            take 15 (concat (map (\<lambda>c. if c = CHR '':'' \<or> c = CHR ''-'' then []
                                       else if c = CHR '' '' then ''_'' else [c])
                                 (formatted_time env)))
      in (dir_join (backup_folder env) ''temp_backups'',
          snd normalized_path @ ''.'' @ timestamp @ ''.bak''))"

definition can_write_to_file :: "filesystem \<Rightarrow> path \<Rightarrow> bool" where
  "can_write_to_file files p = (case map_of files p of None \<Rightarrow> True | Some f \<Rightarrow> \<not> locked f)"

text \<open>
  \<^verbatim>\<open>with gzip.open(src, 'rb') as s, open(dst, 'wb') as d: shutil.copyfileobj(s, d)\<close>:
  the blob is opened first, then the destination is opened and emptied, then the
  decoded bytes are copied; a blob that is no gzip stream raises after the destination
  was emptied.
\<close>

definition gunzip_to :: "bm_env \<Rightarrow> filesystem \<Rightarrow> path \<Rightarrow> path \<Rightarrow> real \<Rightarrow> (exn + unit) \<times> filesystem" where
  "gunzip_to env fs0 src dst now =
     (case read_file fs0 src of
        Inl e \<Rightarrow> (Inl e, fs0)
      | Inr bytes \<Rightarrow>
          (case write_file fs0 dst [] now of
             Inl e \<Rightarrow> (Inl e, fs0)
           | Inr fs1 \<Rightarrow>
               (case gzip_decompress env (if src = dst then [] else bytes) of
                  None \<Rightarrow> (Inl BadGzipFile, fs1)
                | Some data \<Rightarrow>
                    (case write_file fs1 dst data now of
                       Inl e \<Rightarrow> (Inl e, fs1)
                     | Inr fs2 \<Rightarrow> (Inr (), fs2)))))"

text \<open>The \<^verbatim>\<open>try\<close> block of \<^verbatim>\<open>_restore_office_document\<close>, and the method with its handler,
  which deletes the temporary file if it is there, ignores a failure to do so, and raises
  the exception again.\<close>

definition office_try ::
  "bm_env \<Rightarrow> path \<Rightarrow> path \<Rightarrow> path \<Rightarrow> real \<Rightarrow> bm_state \<Rightarrow> (exn + unit) \<times> bm_state" where
  "office_try env target_file backup_path temp_file now st =
     (if path_exists (fs st) target_file \<and> \<not> can_write_to_file (fs st) target_file then
        (Inl PermissionError,
         bm_log_error ''Cannot restore document because it is currently open'' st)
      else
        (case gunzip_to env (fs st) backup_path temp_file now of
           (Inl e, fs1) \<Rightarrow> (Inl e, st\<lparr>fs := fs1\<rparr>)
         | (Inr _, fs1) \<Rightarrow>
             (if path_exists fs1 target_file then
                (if is_windows env then
                   (let fs2 = (case remove_file fs1 target_file of Inl e \<Rightarrow> fs1 | Inr fs' \<Rightarrow> fs')
                    in case rename_file True fs2 temp_file target_file of
                         Inl e \<Rightarrow> (Inl e, st\<lparr>fs := fs2\<rparr>)
                       | Inr fs3 \<Rightarrow> (Inr (), st\<lparr>fs := fs3\<rparr>))
                 else
                   (case replace_file fs1 temp_file target_file of
                      Inl e \<Rightarrow> (Inl e, st\<lparr>fs := fs1\<rparr>)
                    | Inr fs3 \<Rightarrow> (Inr (), st\<lparr>fs := fs3\<rparr>)))
              else
                (case rename_file (is_windows env) fs1 temp_file target_file of
                   Inl e \<Rightarrow> (Inl e, st\<lparr>fs := fs1\<rparr>)
                 | Inr fs3 \<Rightarrow> (Inr (), st\<lparr>fs := fs3\<rparr>)))))"

definition restore_office_document ::
  "bm_env \<Rightarrow> path \<Rightarrow> path \<Rightarrow> real \<Rightarrow> bm_state \<Rightarrow> (exn + unit) \<times> bm_state" where
  "restore_office_document env target_file backup_path now st =
     (let temp_file = (fst target_file, ''temp_'' @ snd target_file)
      in case office_try env target_file backup_path temp_file now st of
           (Inr u, st1) \<Rightarrow> (Inr u, st1)
         | (Inl e, st1) \<Rightarrow>
             (if path_exists (fs st1) temp_file then
                (case remove_file (fs st1) temp_file of
                   Inl e' \<Rightarrow> (Inl e, st1)
                 | Inr fs' \<Rightarrow> (Inl e, st1\<lparr>fs := fs'\<rparr>))
              else (Inl e, st1)))"

definition office_extensions :: "string list" where
  "office_extensions = [''.doc'', ''.docx'', ''.xls'', ''.xlsx'', ''.ppt'', ''.pptx'']"

text \<open>The two handlers of \<^verbatim>\<open>restore_file_version\<close>: a \<^verbatim>\<open>PermissionError\<close> is logged,
  shown in an error box and raised again; any other exception is logged and raised
  again.\<close>

definition restore_reraise :: "exn \<Rightarrow> bm_state \<Rightarrow> (exn + unit) \<times> bm_state" where
  "restore_reraise e st =
     (if e = PermissionError then
        (Inl e, (bm_log_error ''Permission denied restoring file'' st)
                  \<lparr>error_boxes := error_boxes st @ [''Permission Denied'']\<rparr>)
      else (Inl e, bm_log_error ''Restore failed'' st))"

definition restore_file_version ::
  "bm_env \<Rightarrow> path \<Rightarrow> string \<Rightarrow> real \<Rightarrow> bm_state \<Rightarrow> (exn + unit) \<times> bm_state" where
  "restore_file_version env normalized_path file_hash now st =
     (let backup_path = get_backup_path env normalized_path file_hash in
      case check_backup_exists env normalized_path file_hash st of
        (False, st1) \<Rightarrow> restore_reraise FileNotFoundError st1
      | (True, st1) \<Rightarrow>
          (let temp_backup_path = get_temp_backup_path env normalized_path in
           case (if path_exists (fs st1) normalized_path
                 then copy2 (fs st1) normalized_path temp_backup_path now
                 else Inr (fs st1)) of
             Inl e \<Rightarrow> restore_reraise e st1
           | Inr fs2 \<Rightarrow>
               (let st2 = st1\<lparr>fs := fs2\<rparr>; ext = snd (splitext (snd normalized_path)) in
                if lower ext \<in> set office_extensions then
                  (case restore_office_document env normalized_path backup_path now st2 of
                     (Inl e, st3) \<Rightarrow> restore_reraise e st3
                   | (Inr u, st3) \<Rightarrow> (Inr u, st3))
                else
                  (case gunzip_to env (fs st2) backup_path normalized_path now of
                     (Inl e, fs3) \<Rightarrow> restore_reraise e (st2\<lparr>fs := fs3\<rparr>)
                   | (Inr u, fs3) \<Rightarrow> (Inr u, st2\<lparr>fs := fs3\<rparr>)))))"

text \<open>The value of \<^verbatim>\<open>backups_to_delete\<close> in \<^verbatim>\<open>_clean_old_backups\<close>, empty when the
  branch that computes it is not taken.\<close>

definition backups_to_delete :: "bm_env \<Rightarrow> path \<Rightarrow> int \<Rightarrow> bm_state \<Rightarrow> backup list" where
  "backups_to_delete env normalized_path max_backups st =
     (let all_backups = get_all_backup_files env normalized_path st in
      if int (length all_backups) > max_backups then py_slice_from all_backups max_backups else [])"

text \<open>A content hash is the lower-case hexadecimal digest \<^verbatim>\<open>hashlib.sha256(...).hexdigest()\<close>
  returns.\<close>

definition is_hex_digest :: "string \<Rightarrow> bool" where
  "is_hex_digest h \<longleftrightarrow> h \<noteq> [] \<and> list_all (\<lambda>c. c \<in> set ''0123456789abcdef'') h"

text \<open>
  Between two calls the surroundings may change the file system. \<open>same_blobs\<close> says
  that the entries of the version directory of a path and the negative cache are as they
  were; \<open>blobs_older\<close> that every entry of that directory was last written before \<open>t\<close>.
\<close>

definition dir_entries :: "filesystem \<Rightarrow> string \<Rightarrow> filesystem" where
  "dir_entries files d = filter (\<lambda>e. fst (fst e) = d) files"

definition same_blobs :: "bm_env \<Rightarrow> path \<Rightarrow> bm_state \<Rightarrow> bm_state \<Rightarrow> bool" where
  "same_blobs env normalized_path a b \<longleftrightarrow>
     known_missing_backups b = known_missing_backups a
     \<and> dir_entries (fs b) (version_dir env normalized_path)
         = dir_entries (fs a) (version_dir env normalized_path)"

definition blobs_older :: "bm_env \<Rightarrow> path \<Rightarrow> real \<Rightarrow> bm_state \<Rightarrow> bool" where
  "blobs_older env normalized_path t st \<longleftrightarrow>
     list_all (\<lambda>e. mtime (snd e) < t) (dir_entries (fs st) (version_dir env normalized_path))"

text \<open>The version record of a hash under a path in the index, if there is one.\<close>

definition lookup_version :: "tracked_files \<Rightarrow> string \<Rightarrow> string \<Rightarrow> version_info option" where
  "lookup_version tracked key file_hash =
     (case map_of tracked key of
        Some (Some vs) \<Rightarrow> map_of vs file_hash
      | _ \<Rightarrow> None)"

text \<open>No entry of the version directory of a path is held open by another application.\<close>

definition blobs_unlocked :: "bm_env \<Rightarrow> path \<Rightarrow> bm_state \<Rightarrow> bool" where
  "blobs_unlocked env normalized_path st \<longleftrightarrow>
     list_all (\<lambda>e. \<not> locked (snd e)) (dir_entries (fs st) (version_dir env normalized_path))"

section \<open>The change detector (\<^verbatim>\<open>core/file_monitor.py\<close>)\<close>

text \<open>
  A call returns, raises, or never comes back. \<^verbatim>\<open>self.lock\<close> is a \<^verbatim>\<open>threading.Lock\<close>, which
  is not reentrant: a thread that enters \<^verbatim>\<open>with self.lock\<close> while it holds the lock waits
  for itself for ever. The model runs one call at a time, so a lock that is held when a
  call wants it is held by that very call.
\<close>

datatype 'a outcome = Returns 'a | Raises exn | Blocks

text \<open>The entry of a watched file, with the keys of the dict in the source.\<close>

record watch_entry =
  e_hash :: string
  e_mtime :: real
  e_last_check :: real
  e_is_open :: bool
  e_size :: nat

text \<open>
  What a poll sees of a file that exists: \<^verbatim>\<open>os.path.getmtime\<close>, \<^verbatim>\<open>os.path.getsize\<close>, what
  \<^verbatim>\<open>calculate_file_hash\<close> returns or raises, and the answer of \<^verbatim>\<open>_is_file_closed\<close>. A view
  gives this for every path; \<open>None\<close> is a path that does not exist.
\<close>

record file_obs =
  o_mtime :: real
  o_size :: nat
  o_hash :: "exn + string"
  o_closed :: bool

type_synonym view = "string \<Rightarrow> file_obs option"

text \<open>The tasks of the background queue, and the calls the detector makes to the rest of
  the application: the change callback, \<^verbatim>\<open>main_app.show_commit_dialog\<close>, and
  \<^verbatim>\<open>shared_state.notify_system_tray_update\<close> with the status it is given.\<close>

datatype task = SetFileTask "string option"

datatype event =
  Callback string bool
| CommitDialog string
| TrayStatus bool int "string set"

text \<open>
  What the detector was constructed with: what \<^verbatim>\<open>version_manager.load_tracked_files()\<close>
  returns or raises (\<open>None\<close> without a version manager), whether there is a main
  application, and whether the shared state takes tray updates. Paths are normalised
  strings, on which \<^verbatim>\<open>os.path.normpath\<close> is the identity; what \<^verbatim>\<open>_log_debug\<close> prints is left
  out.
\<close>

record fm_env =
  version_manager_load :: "(exn + tracked_files) option"
  has_main_app :: bool
  has_tray :: bool

record fm_state =
  watched_files :: "(string \<times> watch_entry) list"
  active_files :: "string set"
  restoring_files :: "string set"
  last_dialog_time :: "(string \<times> real) list"
  fm_tracked_files :: tracked_files
  is_monitoring :: bool
  pending_changes_count :: int
  files_with_changes :: "string set"
  background_queue :: "task list"
  lock_held :: bool
  events :: "event list"

definition dialog_cooldown :: real where
  "dialog_cooldown = 2"

text \<open>\<^verbatim>\<open>with self.lock: body\<close>. The lock is released when the body returns or raises.\<close>

definition with_lock ::
  "(fm_state \<Rightarrow> 'a outcome \<times> fm_state) \<Rightarrow> fm_state \<Rightarrow> 'a outcome \<times> fm_state" where
  "with_lock body st =
     (if lock_held st then (Blocks, st)
      else (case body (st\<lparr>lock_held := True\<rparr>) of
              (r, st') \<Rightarrow>
                (case r of
                   Blocks \<Rightarrow> (Blocks, st')
                 | _ \<Rightarrow> (r, st'\<lparr>lock_held := False\<rparr>))))"

definition notify_system_tray_status :: "fm_env \<Rightarrow> fm_state \<Rightarrow> fm_state" where
  "notify_system_tray_status env st =
     (if has_tray env
      then st\<lparr>events := events st
                 @ [TrayStatus (is_monitoring st) (pending_changes_count st) (files_with_changes st)]\<rparr>
      else st)"

definition cleanup_file :: "fm_env \<Rightarrow> string option \<Rightarrow> fm_state \<Rightarrow> fm_state" where
  "cleanup_file env file_path st =
     (case file_path of
        None \<Rightarrow> st
      | Some normalized_path \<Rightarrow>
          if normalized_path = [] then st
          else
            (let st1 = st\<lparr>watched_files := AList.delete normalized_path (watched_files st),
                          active_files := active_files st - {normalized_path}\<rparr>
             in if normalized_path \<in> files_with_changes st1
                then notify_system_tray_status env
                       (st1\<lparr>files_with_changes := files_with_changes st1 - {normalized_path},
                            pending_changes_count := max 0 (pending_changes_count st1 - 1)\<rparr>)
                else st1))"

text \<open>\<^verbatim>\<open>set_file\<close> only queues its task; the background thread runs the task later.\<close>

definition set_file :: "string option \<Rightarrow> fm_state \<Rightarrow> fm_state" where
  "set_file file_path st = st\<lparr>background_queue := background_queue st @ [SetFileTask file_path]\<rparr>"

definition set_file_task ::
  "fm_env \<Rightarrow> view \<Rightarrow> real \<Rightarrow> string option \<Rightarrow> fm_state \<Rightarrow> unit outcome \<times> fm_state" where
  "set_file_task env view now path st =
     with_lock
       (\<lambda>st. case (case path of None \<Rightarrow> None | Some p \<Rightarrow> if p = [] then None else view p) of
                None \<Rightarrow> (Returns (), cleanup_file env path st)
              | Some ob \<Rightarrow>
                  (case o_hash ob of
                     Inl e \<Rightarrow> (Returns (), st)
                   | Inr current_hash \<Rightarrow>
                       (Returns (),
                        st\<lparr>watched_files :=
                             AList.update (the path)
                               \<lparr>e_hash = current_hash, e_mtime = o_mtime ob, e_last_check = now,
                                e_is_open = True, e_size = o_size ob\<rparr>
                               (watched_files st),
                           active_files := insert (the path) (active_files st)\<rparr>)))
       st"

definition mark_file_as_restoring :: "string \<Rightarrow> fm_state \<Rightarrow> unit outcome \<times> fm_state" where
  "mark_file_as_restoring normalized_path st =
     with_lock
       (\<lambda>st. (Returns (), st\<lparr>restoring_files := insert normalized_path (restoring_files st)\<rparr>)) st"

definition unmark_file_as_restoring :: "string \<Rightarrow> fm_state \<Rightarrow> unit outcome \<times> fm_state" where
  "unmark_file_as_restoring normalized_path st =
     with_lock
       (\<lambda>st. (Returns (), st\<lparr>restoring_files := restoring_files st - {normalized_path}\<rparr>)) st"

definition show_commit_dialog :: "fm_env \<Rightarrow> string \<Rightarrow> fm_state \<Rightarrow> fm_state" where
  "show_commit_dialog env file_path st =
     (if has_main_app env then st\<lparr>events := events st @ [CommitDialog file_path]\<rparr> else st)"

text \<open>\<^verbatim>\<open>_handle_file_closed\<close>. It is called from \<^verbatim>\<open>check_for_changes\<close>, inside
  \<^verbatim>\<open>with self.lock\<close>, and for a file that is being restored it calls
  \<^verbatim>\<open>unmark_file_as_restoring\<close>, which takes the lock itself.\<close>

definition handle_file_closed ::
  "fm_env \<Rightarrow> view \<Rightarrow> real \<Rightarrow> string \<Rightarrow> string \<Rightarrow> fm_state \<Rightarrow> unit outcome \<times> fm_state" where
  "handle_file_closed env view now normalized_path current_hash st =
     (case (case version_manager_load env of
              None \<Rightarrow> Inr (fm_tracked_files st)
            | Some r \<Rightarrow> r) of
        Inl e \<Rightarrow> (Raises e, st)
      | Inr tracked \<Rightarrow>
          (let file_info =
                 \<lparr>e_hash = current_hash,
                  e_mtime = (case view normalized_path of None \<Rightarrow> 0 | Some ob \<Rightarrow> o_mtime ob),
                  e_last_check = now,
                  e_is_open = False,
                  e_size = (case view normalized_path of None \<Rightarrow> 0 | Some ob \<Rightarrow> o_size ob)\<rparr>;
               st1 = st\<lparr>fm_tracked_files := tracked,
                        watched_files := AList.update normalized_path file_info (watched_files st)\<rparr>
           in if normalized_path \<in> restoring_files st1
              then unmark_file_as_restoring normalized_path st1
              else if map_of (fm_tracked_files st1) normalized_path \<noteq> None
                      \<and> now - (case map_of (last_dialog_time st1) normalized_path of
                                 None \<Rightarrow> 0 | Some t \<Rightarrow> t) > dialog_cooldown
              then (Returns (),
                    (show_commit_dialog env normalized_path st1)
                      \<lparr>last_dialog_time := AList.update normalized_path now (last_dialog_time st1)\<rparr>)
              else (Returns (), st1)))"

text \<open>The block under \<^verbatim>\<open>if has_changed:\<close> in \<^verbatim>\<open>check_for_changes\<close>: the path is counted
  for the system tray if it was not yet, and the change callback is called.\<close>

definition report_change :: "fm_env \<Rightarrow> string \<Rightarrow> fm_state \<Rightarrow> fm_state" where
  "report_change env file_path st =
     (let st1 = (if file_path \<notin> files_with_changes st
                 then notify_system_tray_status env
                        (st\<lparr>files_with_changes := insert file_path (files_with_changes st),
                            pending_changes_count := pending_changes_count st + 1\<rparr>)
                 else st)
      in st1\<lparr>events := events st1 @ [Callback file_path True]\<rparr>)"

text \<open>
  The body of the loop of \<^verbatim>\<open>check_for_changes\<close> for one watched path. An exception inside
  the \<^verbatim>\<open>try\<close> is printed and the loop goes on with the next path. The entry that
  \<^verbatim>\<open>_handle_file_closed\<close> updates is the dict the loop holds, so the loop's own update works
  on the entry as \<^verbatim>\<open>_handle_file_closed\<close> left it.
\<close>

definition check_file ::
  "fm_env \<Rightarrow> view \<Rightarrow> real \<Rightarrow> string \<Rightarrow> fm_state \<Rightarrow> unit outcome \<times> fm_state" where
  "check_file env view current_time file_path st =
     (case view file_path of
        None \<Rightarrow> (Returns (), cleanup_file env (Some file_path) st)
      | Some ob \<Rightarrow>
          (case map_of (watched_files st) file_path of
             None \<Rightarrow> (Returns (), st)
           | Some file_info \<Rightarrow>
               if o_size ob \<noteq> e_size file_info then
                 (Returns (),
                  st\<lparr>watched_files :=
                       AList.update file_path (file_info\<lparr>e_size := o_size ob, e_is_open := True\<rparr>)
                         (watched_files st)\<rparr>)
               else if o_mtime ob \<noteq> e_mtime file_info then
                 (case o_hash ob of
                    Inl e \<Rightarrow> (Returns (), st)
                  | Inr current_hash \<Rightarrow>
                      (let has_changed = (current_hash \<noteq> e_hash file_info);
                           was_open = e_is_open file_info;
                           is_closed = o_closed ob
                       in case (if was_open \<and> is_closed \<and> has_changed
                                then handle_file_closed env view current_time file_path current_hash st
                                else (Returns (), st)) of
                            (r, st1) \<Rightarrow>
                              (case r of
                                 Blocks \<Rightarrow> (Blocks, st1)
                               | Raises e \<Rightarrow> (Returns (), st1)
                               | Returns _ \<Rightarrow>
                                   (let info1 = (case map_of (watched_files st1) file_path of
                                                   None \<Rightarrow> file_info | Some i \<Rightarrow> i);
                                        info2 = info1\<lparr>e_hash := current_hash, e_mtime := o_mtime ob,
                                                      e_is_open := \<not> is_closed\<rparr>;
                                        st2 = (if has_changed then report_change env file_path st1
                                               else st1)
                                    in (Returns (),
                                        st2\<lparr>watched_files :=
                                              AList.update file_path (info2\<lparr>e_last_check := current_time\<rparr>)
                                                (watched_files st2)\<rparr>)))))
               else
                 (Returns (),
                  st\<lparr>watched_files :=
                       AList.update file_path (file_info\<lparr>e_last_check := current_time\<rparr>)
                         (watched_files st)\<rparr>)))"

fun check_loop ::
  "fm_env \<Rightarrow> view \<Rightarrow> real \<Rightarrow> string list \<Rightarrow> fm_state \<Rightarrow> unit outcome \<times> fm_state" where
  "check_loop env view current_time [] st = (Returns (), st)"
| "check_loop env view current_time (file_path # rest) st =
     (case check_file env view current_time file_path st of
        (r, st1) \<Rightarrow>
          (case r of
             Blocks \<Rightarrow> (Blocks, st1)
           | _ \<Rightarrow> check_loop env view current_time rest st1))"

definition check_for_changes ::
  "fm_env \<Rightarrow> view \<Rightarrow> real \<Rightarrow> fm_state \<Rightarrow> unit outcome \<times> fm_state" where
  "check_for_changes env view current_time st =
     (if \<not> is_monitoring st then (Returns (), st)
      else with_lock
             (\<lambda>st. check_loop env view current_time (map fst (watched_files st)) st) st)"

definition force_reset_monitoring :: "fm_env \<Rightarrow> string \<Rightarrow> fm_state \<Rightarrow> unit outcome \<times> fm_state" where
  "force_reset_monitoring env normalized_path st =
     with_lock
       (\<lambda>st. let st1 = st\<lparr>watched_files := AList.delete normalized_path (watched_files st),
                          restoring_files := restoring_files st - {normalized_path}\<rparr>;
                  st2 = (if normalized_path \<in> files_with_changes st1
                         then notify_system_tray_status env
                                (st1\<lparr>files_with_changes := files_with_changes st1 - {normalized_path},
                                     pending_changes_count := max 0 (pending_changes_count st1 - 1)\<rparr>)
                         else st1)
              in (Returns (), set_file (Some normalized_path) st2))
       st"

text \<open>One round of \<^verbatim>\<open>_background_monitor\<close>: at most one queued task, then the poll when
  monitoring is on. An exception ends the round.\<close>

definition background_round ::
  "fm_env \<Rightarrow> view \<Rightarrow> real \<Rightarrow> fm_state \<Rightarrow> unit outcome \<times> fm_state" where
  "background_round env view now st =
     (case (case background_queue st of
              [] \<Rightarrow> (Returns (), st)
            | SetFileTask path # rest \<Rightarrow>
                set_file_task env view now path (st\<lparr>background_queue := rest\<rparr>)) of
        (r, st1) \<Rightarrow>
          (case r of
             Blocks \<Rightarrow> (Blocks, st1)
           | Raises e \<Rightarrow> (Returns (), st1)
           | Returns _ \<Rightarrow>
               if is_monitoring st1 then
                 (case check_for_changes env view now st1 of
                    (r2, st2) \<Rightarrow>
                      (case r2 of Raises e \<Rightarrow> (Returns (), st2) | _ \<Rightarrow> (r2, st2)))
               else (Returns (), st1)))"

text \<open>A change notification for a path: the change callback or the commit dialog.\<close>

fun notifies :: "string \<Rightarrow> event \<Rightarrow> bool" where
  "notifies p (Callback q b) = (q = p)"
| "notifies p (CommitDialog q) = (q = p)"
| "notifies p (TrayStatus m n s) = False"

text \<open>
  What a poll compares for a watched entry: the file is there with the stored size, another
  modification time and another content hash. The file is observed closed. The entry has
  the size and modification time the view shows (or there is no entry, or no file).
  Loading the index does not raise.
\<close>

definition content_changed :: "view \<Rightarrow> string \<Rightarrow> watch_entry \<Rightarrow> bool" where
  "content_changed view p e \<longleftrightarrow>
     (case view p of
        None \<Rightarrow> False
      | Some ob \<Rightarrow>
          o_size ob = e_size e \<and> o_mtime ob \<noteq> e_mtime e
          \<and> (case o_hash ob of Inl x \<Rightarrow> False | Inr h \<Rightarrow> h \<noteq> e_hash e))"

definition observed_closed :: "view \<Rightarrow> string \<Rightarrow> bool" where
  "observed_closed view p \<longleftrightarrow> (case view p of None \<Rightarrow> False | Some ob \<Rightarrow> o_closed ob)"

definition settled :: "view \<Rightarrow> string \<Rightarrow> fm_state \<Rightarrow> bool" where
  "settled view p st \<longleftrightarrow>
     (case map_of (watched_files st) p of
        None \<Rightarrow> True
      | Some e \<Rightarrow>
          (case view p of
             None \<Rightarrow> True
           | Some ob \<Rightarrow> e_size e = o_size ob \<and> e_mtime e = o_mtime ob))"

definition load_succeeds :: "fm_env \<Rightarrow> bool" where
  "load_succeeds env \<longleftrightarrow>
     (case version_manager_load env of
        None \<Rightarrow> True
      | Some r \<Rightarrow> (case r of Inl x \<Rightarrow> False | Inr t \<Rightarrow> True))"

section \<open>Sample surroundings\<close>

text \<open>
  Concrete surroundings on which the operations are run: a digest function, a coder that
  puts the two magic bytes of a gzip stream in front of the data and a decoder that takes
  them off, a small JSON codec, and a file system that holds one file to commit.
\<close>

definition sample_md5 :: "string \<Rightarrow> string" where
  "sample_md5 d = ''0cc175b9c0f1b6a831c399e269772661''"

definition sample_gzip :: "string \<Rightarrow> string" where
  "sample_gzip data = CHR 0x1F # CHR 0x8B # data"

fun sample_gunzip :: "string \<Rightarrow> string option" where
  "sample_gunzip (a # b # rest) = (if a = CHR 0x1F \<and> b = CHR 0x8B then Some rest else None)"
| "sample_gunzip _ = None"

definition sample_path :: path where
  "sample_path = (''/home/user'', ''notes.txt'')"

text \<open>An index with a record for each of three versions of the sample file.\<close>

definition sample_info :: "string \<Rightarrow> version_info" where
  "sample_info ts = \<lparr>timestamp = Some ts, commit_message = ''edit'', username = ''user'',
     previous_hash = None\<rparr>"

definition sample_tracked :: tracked_files where
  "sample_tracked =
     [(path_str sample_path,
       Some [(''a1'', sample_info ''2025-03-17 18:31:41''),
             (''b2'', sample_info ''2025-03-17 18:31:42''),
             (''c3'', sample_info ''2025-03-17 18:31:43'')])]"

text \<open>The sample serialiser writes the braces and one chunk for each tracked path; the
  sample parser reads back the empty index and the sample index, and rejects all else.\<close>

definition sample_chunks :: "tracked_files \<Rightarrow> string list" where
  "sample_chunks t =
     (if t = [] then [''{}'']
      else [''{''] @ map (\<lambda>e. fst e @ '': {...}'') t @ [''}''])"

definition sample_loads :: "string \<Rightarrow> tracked_files option" where
  "sample_loads s =
     (if s = ''{}'' then Some []
      else if s = concat (sample_chunks sample_tracked) then Some sample_tracked
      else None)"

definition sample_vm_env :: vm_env where
  "sample_vm_env = \<lparr>json_loads = sample_loads, json_chunks = sample_chunks,
     getlogin = Some ''user'', write_fault = None\<rparr>"

definition sample_env :: bm_env where
  "sample_env = \<lparr>backup_folder = ''/data/backups'', md5_hexdigest = sample_md5,
     gzip_compress = sample_gzip, gzip_decompress = sample_gunzip, has_version_manager = True,
     vm_environment = sample_vm_env, is_windows = False,
     formatted_time = ''2025-03-17 18:31:44''\<rparr>"

definition sample_file :: "string \<Rightarrow> real \<Rightarrow> file_entry" where
  "sample_file data t = \<lparr>content = data, mtime = t, ctime = t, locked = False\<rparr>"

definition sample_vm_state :: vm_state where
  "sample_vm_state = \<lparr>index_file = None, index_writable = True, vm_error_log = []\<rparr>"

definition sample_state :: bm_state where
  "sample_state = \<lparr>fs = [(sample_path, sample_file ''hello'' 0)], known_missing_backups = {},
     bm_error_log = [], error_boxes = [], vm = sample_vm_state\<rparr>"

text \<open>The states after one, two and three commits of the sample file, with at most two
  backups kept.\<close>

definition sample_commit1 :: bm_state where
  "sample_commit1 = snd (create_backup sample_env sample_path ''a1'' (Some 2) 1 sample_state)"

definition sample_commit2 :: bm_state where
  "sample_commit2 = snd (create_backup sample_env sample_path ''b2'' (Some 2) 2 sample_commit1)"

definition sample_commit3 :: bm_state where
  "sample_commit3 = snd (create_backup sample_env sample_path ''c3'' (Some 2) 3 sample_commit2)"

text \<open>A store that still has a blob of the old layout for the sample file, and the states
  after committing the same bytes and then twice new bytes with at most one backup kept.\<close>

definition legacy_state :: bm_state where
  "legacy_state =
     sample_state\<lparr>fs := fs sample_state
        @ [(old_backup_path sample_env sample_path ''a1'', sample_file (sample_gzip ''hello'') 0)]\<rparr>"

definition legacy_commit1 :: bm_state where
  "legacy_commit1 = snd (create_backup sample_env sample_path ''a1'' (Some 1) 1 legacy_state)"

definition legacy_commit2 :: bm_state where
  "legacy_commit2 = snd (create_backup sample_env sample_path ''b2'' (Some 1) 2 legacy_commit1)"

definition legacy_commit3 :: bm_state where
  "legacy_commit3 = snd (create_backup sample_env sample_path ''c3'' (Some 1) 3 legacy_commit2)"

text \<open>An office document with one blob in the store: the document may be held open by
  another application, and the bytes of the blob are given.\<close>

definition office_path :: path where
  "office_path = (''/home/user'', ''report.docx'')"

definition office_state :: "bool \<Rightarrow> string \<Rightarrow> bm_state" where
  "office_state held blob =
     \<lparr>fs = [(office_path, \<lparr>content = ''new'', mtime = 5, ctime = 0, locked = held\<rparr>),
            (get_backup_path sample_env office_path ''a1'', sample_file blob 1)],
      known_missing_backups = {}, bm_error_log = [], error_boxes = [], vm = sample_vm_state\<rparr>"

text \<open>An index file that holds the sample index, and surroundings in which the device
  fails after the first chunk of a write.\<close>

definition persisted_vm_state :: vm_state where
  "persisted_vm_state = sample_vm_state\<lparr>index_file := Some (concat (sample_chunks sample_tracked))\<rparr>"

definition faulty_vm_env :: vm_env where
  "faulty_vm_env = sample_vm_env\<lparr>write_fault := Some 1\<rparr>"

text \<open>
  A detector that watches the sample file, with the baseline of its first version; a view
  in which the sample file has five bytes and a given modification time, hash and answer of
  \<^verbatim>\<open>_is_file_closed\<close>; and the detector after the poll that sees the file saved and closed
  with new content.
\<close>

definition sample_fm_env :: fm_env where
  "sample_fm_env = \<lparr>version_manager_load = Some (Inr sample_tracked), has_main_app = True,
     has_tray = True\<rparr>"

definition sample_fm_state :: fm_state where
  "sample_fm_state =
     \<lparr>watched_files = [(path_str sample_path,
         \<lparr>e_hash = ''a1'', e_mtime = 1, e_last_check = 1, e_is_open = True, e_size = 5\<rparr>)],
      active_files = {path_str sample_path}, restoring_files = {}, last_dialog_time = [],
      fm_tracked_files = [], is_monitoring = True, pending_changes_count = 0,
      files_with_changes = {}, background_queue = [], lock_held = False, events = []\<rparr>"

definition sample_view :: "real \<Rightarrow> string \<Rightarrow> bool \<Rightarrow> view" where
  "sample_view t h is_closed p =
     (if p = path_str sample_path
      then Some \<lparr>o_mtime = t, o_size = 5, o_hash = Inr h, o_closed = is_closed\<rparr>
      else None)"

definition sample_fm_closed :: fm_state where
  "sample_fm_closed = snd (check_for_changes sample_fm_env (sample_view 2 ''b2'' True) 10 sample_fm_state)"

text \<open>The sample detector after the sample file was marked as being restored.\<close>

definition sample_fm_restoring :: fm_state where
  "sample_fm_restoring = snd (mark_file_as_restoring (path_str sample_path) sample_fm_state)"

section \<open>Properties\<close>

subsection \<open>Timestamps: parsed order and string order\<close>

lemma strptime_valid: "strptime ts = Inr dt \<Longrightarrow> valid_datetime dt"
  by (auto simp: strptime_def split: list.splits if_splits prod.splits)

lemma lex_digit: "(a div 10 < b div 10 \<or> a div 10 = b div 10 \<and> a mod 10 < b mod 10) \<longleftrightarrow> a < (b::nat)"
proof -
  have a: "a = 10 * (a div 10) + a mod 10" and b: "b = 10 * (b div 10) + b mod 10" by simp_all
  have ra: "a mod 10 < 10" and rb: "b mod 10 < 10" by simp_all
  show ?thesis using a b ra rb by linarith
qed

lemma eq_digit: "(a div 10 = b div 10 \<and> a mod 10 = b mod 10) \<longleftrightarrow> a = (b::nat)"
  by (metis div_mult_mod_eq)

lemma digit_char_less: "digit_char a < digit_char b \<longleftrightarrow> a mod 10 < b mod 10"
  by (simp add: digit_char_def less_char_def)

lemma digit_char_eq: "digit_char a = digit_char b \<longleftrightarrow> a mod 10 = b mod 10"
proof
  assume "digit_char a = digit_char b"
  then have "(of_char (digit_char a) :: nat) = of_char (digit_char b)" by simp
  then show "a mod 10 = b mod 10" by (simp add: digit_char_def)
next
  assume "a mod 10 = b mod 10"
  then show "digit_char a = digit_char b" by (simp add: digit_char_def)
qed

lemma pad2_less:
  assumes "a < 100" "b < 100"
  shows "pad2 a < pad2 b \<longleftrightarrow> a < b"
proof -
  have s: "a div 10 mod 10 = a div 10" "b div 10 mod 10 = b div 10"
    using assms by simp_all
  show ?thesis
    unfolding pad2_def using lex_digit [of a b]
    by (simp add: digit_char_less digit_char_eq s)
qed

lemma pad2_eq:
  assumes "a < 100" "b < 100"
  shows "pad2 a = pad2 b \<longleftrightarrow> a = b"
proof -
  have s: "a div 10 mod 10 = a div 10" "b div 10 mod 10 = b div 10"
    using assms by simp_all
  show ?thesis
    unfolding pad2_def using eq_digit [of a b]
    by (simp add: digit_char_eq s)
qed

lemma pad4_eq:
  assumes "a < 10000" "b < 10000"
  shows "pad4 a = pad4 b \<longleftrightarrow> a = b"
proof -
  have s: "a div 1000 mod 10 = a div 1000" "b div 1000 mod 10 = b div 1000"
    using assms by simp_all
  have d: "a div 10 div 10 = a div 100" "b div 10 div 10 = b div 100"
    "a div 100 div 10 = a div 1000" "b div 100 div 10 = b div 1000"
    by (simp_all add: div_mult2_eq [symmetric])
  have "a = b \<longleftrightarrow> a div 10 = b div 10 \<and> a mod 10 = b mod 10"
    using eq_digit [of a b] by simp
  also have "a div 10 = b div 10 \<longleftrightarrow> a div 100 = b div 100 \<and> a div 10 mod 10 = b div 10 mod 10"
    using eq_digit [of "a div 10" "b div 10"] by (simp add: d)
  also have "a div 100 = b div 100 \<longleftrightarrow> a div 1000 = b div 1000 \<and> a div 100 mod 10 = b div 100 mod 10"
    using eq_digit [of "a div 100" "b div 100"] by (simp add: d)
  finally show ?thesis
    unfolding pad4_def by (simp add: digit_char_eq s conj_ac)
qed

lemma pad4_less:
  assumes "a < 10000" "b < 10000"
  shows "pad4 a < pad4 b \<longleftrightarrow> a < b"
proof -
  have s: "a div 1000 mod 10 = a div 1000" "b div 1000 mod 10 = b div 1000"
    using assms by simp_all
  have d: "a div 10 div 10 = a div 100" "b div 10 div 10 = b div 100"
    "a div 100 div 10 = a div 1000" "b div 100 div 10 = b div 1000"
    by (simp_all add: div_mult2_eq [symmetric])
  have e1: "a div 10 = b div 10 \<longleftrightarrow> a div 100 = b div 100 \<and> a div 10 mod 10 = b div 10 mod 10"
    using eq_digit [of "a div 10" "b div 10"] by (simp add: d)
  have e2: "a div 100 = b div 100 \<longleftrightarrow> a div 1000 = b div 1000 \<and> a div 100 mod 10 = b div 100 mod 10"
    using eq_digit [of "a div 100" "b div 100"] by (simp add: d)
  have l0: "a < b \<longleftrightarrow> a div 10 < b div 10 \<or> a div 10 = b div 10 \<and> a mod 10 < b mod 10"
    using lex_digit [of a b] by simp
  have l1: "a div 10 < b div 10 \<longleftrightarrow>
      a div 100 < b div 100 \<or> a div 100 = b div 100 \<and> a div 10 mod 10 < b div 10 mod 10"
    using lex_digit [of "a div 10" "b div 10"] by (simp add: d)
  have l2: "a div 100 < b div 100 \<longleftrightarrow>
      a div 1000 < b div 1000 \<or> a div 1000 = b div 1000 \<and> a div 100 mod 10 < b div 100 mod 10"
    using lex_digit [of "a div 100" "b div 100"] by (simp add: d)
  have "pad4 a < pad4 b \<longleftrightarrow>
      a div 1000 < b div 1000 \<or> a div 1000 = b div 1000 \<and>
        (a div 100 mod 10 < b div 100 mod 10 \<or> a div 100 mod 10 = b div 100 mod 10 \<and>
          (a div 10 mod 10 < b div 10 mod 10 \<or> a div 10 mod 10 = b div 10 mod 10 \<and>
             a mod 10 < b mod 10))"
    unfolding pad4_def by (simp add: digit_char_less digit_char_eq s)
  also have "\<dots> \<longleftrightarrow> a < b"
    unfolding l0 l1 l2 e1 e2 by blast
  finally show ?thesis .
qed

lemma lex_append:
  fixes xs ys :: "'a::linorder list"
  shows "length xs = length ys \<Longrightarrow> (xs @ u < ys @ v \<longleftrightarrow> xs < ys \<or> xs = ys \<and> u < v)"
  by (induction xs ys rule: list_induct2) auto

lemma length_pad [simp]: "length (pad2 n) = 2" "length (pad4 n) = 4"
  by (simp_all add: pad2_def pad4_def)

lemma valid_bounds:
  assumes "valid_datetime (y, m, d, H, M, S)"
  shows "y < 10000" "m < 100" "d < 100" "H < 100" "M < 100" "S < 100"
  using assms by (auto simp: valid_datetime_def days_in_month_def split: if_splits)

lemma strftime_less:
  assumes "valid_datetime a" "valid_datetime b"
  shows "strftime a < strftime b \<longleftrightarrow> a < b"
proof -
  obtain y m d H M S where a: "a = (y, m, d, H, M, S)" by (cases a) auto
  obtain y' m' d' H' M' S' where b: "b = (y', m', d', H', M', S')" by (cases b) auto
  note ba = valid_bounds [OF assms(1) [unfolded a]]
  note bb = valid_bounds [OF assms(2) [unfolded b]]
  show ?thesis
    unfolding a b strftime_def prod.case
    by (simp add: lex_append pad4_less pad4_eq pad2_less pad2_eq ba bb less_prod_simp) auto
qed

lemma strftime_eq:
  assumes "valid_datetime a" "valid_datetime b"
  shows "strftime a = strftime b \<longleftrightarrow> a = b"
proof -
  obtain y m d H M S where a: "a = (y, m, d, H, M, S)" by (cases a) auto
  obtain y' m' d' H' M' S' where b: "b = (y', m', d', H', M', S')" by (cases b) auto
  note ba = valid_bounds [OF assms(1) [unfolded a]]
  note bb = valid_bounds [OF assms(2) [unfolded b]]
  show ?thesis
    unfolding a b strftime_def prod.case
    by (simp add: pad4_eq pad2_eq ba bb)
qed

lemma strftime_mono:
  assumes "valid_datetime a" "valid_datetime b" "a \<le> b"
  shows "strftime a \<le> strftime b"
  using strftime_less [OF assms(1,2)] strftime_eq [OF assms(1,2)] assms(3)
  by (auto simp: le_less)

lemma py_sorted_reverse_hd:
  assumes "py_sorted_reverse f xs = k # rest"
  shows "k \<in> set xs \<and> (\<forall>x\<in>set xs. f x \<le> f k)"
proof -
  let ?ys = "sort_key f (rev xs)"
  have ys: "?ys = rev rest @ [k]"
    using assms unfolding py_sorted_reverse_def by (metis rev.simps(2) rev_rev_ident)
  have "sorted (map f ?ys)" by (rule sorted_sort_key)
  then have "\<forall>x\<in>set (rev rest). f x \<le> f k"
    unfolding ys by (simp add: sorted_append)
  moreover have "set xs = set ?ys" by simp
  ultimately show ?thesis unfolding ys by auto
qed

lemma py_sorted_reverse_Nil [simp]: "py_sorted_reverse f xs = [] \<longleftrightarrow> xs = []"
  unfolding py_sorted_reverse_def by (metis length_0_conv length_rev length_sort)

lemma canonical_nonempty: "canonical ts \<Longrightarrow> ts \<noteq> []"
  by (auto simp: canonical_def strptime_def format_regex_def)

lemma canonical_parse:
  assumes "canonical ts"
  obtains dt where "strptime ts = Inr dt" "valid_datetime dt" "strftime dt = ts"
  using assms strptime_valid by (auto simp: canonical_def split: sum.splits)

lemma sort_keys_canonical:
  "all_canonical vs \<Longrightarrow>
   \<exists>ks. sort_keys vs = Inr ks \<and> map snd ks = vs
      \<and> (\<forall>k\<in>set ks. valid_datetime (fst k) \<and> timestamp (snd (snd k)) = Some (strftime (fst k)))"
proof (induction vs)
  case Nil
  then show ?case by simp
next
  case (Cons v vs)
  obtain h info where v: "v = (h, info)" by (cases v)
  from Cons.prems obtain ts where ts: "timestamp info = Some ts" "canonical ts"
    and rest: "all_canonical vs"
    by (auto simp: all_canonical_def v split: option.splits)
  from ts(2) obtain dt where dt: "strptime ts = Inr dt" "valid_datetime dt" "strftime dt = ts"
    by (rule canonical_parse)
  from Cons.IH [OF rest] obtain ks where ks: "sort_keys vs = Inr ks" "map snd ks = vs"
    "\<forall>k\<in>set ks. valid_datetime (fst k) \<and> timestamp (snd (snd k)) = Some (strftime (fst k))"
    by blast
  show ?case
    using ts dt ks by (simp add: v)
qed

lemma last_commit_loop_max:
  assumes "all_canonical vs" "vs \<noteq> []"
  shows "\<exists>j t. last_commit_loop vs = (Some j, Some t) \<and> j \<in> snd ` set vs \<and> timestamp j = Some t
           \<and> (\<forall>i\<in>snd ` set vs. \<forall>s. timestamp i = Some s \<longrightarrow> s \<le> t)"
  using assms
proof (induction vs rule: rev_induct)
  case Nil
  then show ?case by simp
next
  case (snoc v vs)
  from snoc.prems(1) obtain ts where ts: "timestamp (snd v) = Some ts" "canonical ts"
    and rest: "all_canonical vs"
    by (auto simp: all_canonical_def split: option.splits)
  have step: "last_commit_loop (vs @ [v]) = last_commit_step (last_commit_loop vs) v"
    by (simp add: last_commit_loop_def)
  show ?case
  proof (cases "vs = []")
    case True
    then show ?thesis
      using ts by (simp add: last_commit_loop_def last_commit_step_def)
  next
    case False
    from snoc.IH [OF rest False] obtain j t where jt: "last_commit_loop vs = (Some j, Some t)"
      "j \<in> snd ` set vs" "timestamp j = Some t"
      "\<forall>i\<in>snd ` set vs. \<forall>s. timestamp i = Some s \<longrightarrow> s \<le> t"
      by blast
    have tne: "t \<noteq> []"
    proof -
      from jt(2,3) rest have "canonical t"
        by (auto simp: all_canonical_def list_all_iff split: option.splits)
      then show ?thesis by (rule canonical_nonempty)
    qed
    show ?thesis
    proof (cases "ts > t")
      case True
      then have "last_commit_loop (vs @ [v]) = (Some (snd v), Some ts)"
        by (simp add: step jt(1) last_commit_step_def ts(1))
      moreover have "\<forall>i\<in>snd ` set (vs @ [v]). \<forall>s. timestamp i = Some s \<longrightarrow> s \<le> ts"
        using jt(4) True ts(1) by fastforce
      ultimately show ?thesis using ts(1) by auto
    next
      case False
      then have "last_commit_loop (vs @ [v]) = (Some j, Some t)"
        by (simp add: step jt(1) last_commit_step_def ts(1) tne)
      moreover have "\<forall>i\<in>snd ` set (vs @ [v]). \<forall>s. timestamp i = Some s \<longrightarrow> s \<le> t"
        using jt(4) False ts(1) by fastforce
      ultimately show ?thesis using jt(2,3) by auto
    qed
  qed
qed

lemma latest_agree_canonical:
  assumes ne: "vs \<noteq> []" and can: "all_canonical vs"
  shows "\<exists>h i j. latest_version vs = Inr (h, i) \<and> fst (last_commit_loop vs) = Some j
           \<and> timestamp i = timestamp j"
proof -
  from sort_keys_canonical [OF can] obtain ks where ks: "sort_keys vs = Inr ks" "map snd ks = vs"
    and kv: "\<forall>k\<in>set ks. valid_datetime (fst k) \<and> timestamp (snd (snd k)) = Some (strftime (fst k))"
    by blast
  from ks(2) ne have "ks \<noteq> []" by auto
  then obtain k rest where srt: "py_sorted_reverse fst ks = k # rest"
    by (cases "py_sorted_reverse fst ks") auto
  from py_sorted_reverse_hd [OF srt] have kin: "k \<in> set ks" and kmax: "\<forall>x\<in>set ks. fst x \<le> fst k"
    by auto
  obtain dt h i where k: "k = (dt, h, i)" by (cases k) auto
  have lv: "latest_version vs = Inr (h, i)"
    by (simp add: latest_version_def ks(1) srt k)
  from kv kin k have kvalid: "valid_datetime dt" and its: "timestamp i = Some (strftime dt)" by auto
  have iin: "i \<in> snd ` set vs"
    using kin ks(2) k by force
  from last_commit_loop_max [OF can ne] obtain j t where jt: "last_commit_loop vs = (Some j, Some t)"
    "j \<in> snd ` set vs" "timestamp j = Some t"
    "\<forall>i\<in>snd ` set vs. \<forall>s. timestamp i = Some s \<longrightarrow> s \<le> t"
    by blast
  from jt(2) ks(2) obtain kj where kj: "kj \<in> set ks" "snd (snd kj) = j" by force
  from kv kj jt(3) have jvalid: "valid_datetime (fst kj)" and tj: "t = strftime (fst kj)" by auto
  from kmax kj(1) k have "fst kj \<le> dt" by auto
  then have "t \<le> strftime dt"
    unfolding tj by (rule strftime_mono [OF jvalid kvalid])
  moreover from jt(4) iin its have "strftime dt \<le> t" by blast
  ultimately have "strftime dt = t" by simp
  then have "timestamp i = timestamp j" using its jt(3) by simp
  then show ?thesis using lv jt(1) by simp
qed

lemma latest_disagree_example:
  "latest_version
     [(''h1'', \<lparr>timestamp = Some ''2024-10-01 00:00:00'', commit_message = ''a'',
               username = ''u'', previous_hash = None\<rparr>),
      (''h2'', \<lparr>timestamp = Some ''2024-9-01 00:00:00'', commit_message = ''b'',
               username = ''u'', previous_hash = Some ''h1''\<rparr>)]
   = Inr (''h1'', \<lparr>timestamp = Some ''2024-10-01 00:00:00'', commit_message = ''a'',
               username = ''u'', previous_hash = None\<rparr>)"
  by (simp add: latest_version_def py_sorted_reverse_def strptime_def format_regex_def re_m_def
      re_d_def re_H_def re_M_def re_S_def in_range_def digit_val_def is_space_def
      valid_datetime_def days_in_month_def is_leap_def less_eq_prod_simp)

lemma last_commit_disagree_example:
  "fst (last_commit_loop
     [(''h1'', \<lparr>timestamp = Some ''2024-10-01 00:00:00'', commit_message = ''a'',
               username = ''u'', previous_hash = None\<rparr>),
      (''h2'', \<lparr>timestamp = Some ''2024-9-01 00:00:00'', commit_message = ''b'',
               username = ''u'', previous_hash = Some ''h1''\<rparr>)])
   = Some \<lparr>timestamp = Some ''2024-9-01 00:00:00'', commit_message = ''b'',
               username = ''u'', previous_hash = Some ''h1''\<rparr>"
  by (simp add: last_commit_loop_def last_commit_step_def less_char_def Let_def)

text \<open>
  C9. The most recent version by parsed date-time (\<^verbatim>\<open>has_file_changed\<close>) and the most
  recent version by raw string comparison (\<^verbatim>\<open>_get_last_commit\<close>) carry the same time stamp
  for every non-empty version map whose time stamps are all canonical; and there is a
  version map with a non-canonical time stamp on which the two selections differ.
\<close>

theorem latest_version_parsed_vs_string:
  "(\<forall>vs. vs \<noteq> [] \<and> all_canonical vs \<longrightarrow>
      (\<exists>h i j. latest_version vs = Inr (h, i) \<and> fst (last_commit_loop vs) = Some j
         \<and> timestamp i = timestamp j))
   \<and> (\<exists>vs h i j. vs \<noteq> [] \<and> \<not> all_canonical vs \<and> latest_version vs = Inr (h, i)
         \<and> fst (last_commit_loop vs) = Some j \<and> timestamp i \<noteq> timestamp j)"
proof (intro conjI allI impI)
  fix vs :: versions
  assume "vs \<noteq> [] \<and> all_canonical vs"
  then show "\<exists>h i j. latest_version vs = Inr (h, i) \<and> fst (last_commit_loop vs) = Some j
         \<and> timestamp i = timestamp j"
    using latest_agree_canonical by blast
next
  let ?vs = "[(''h1'', \<lparr>timestamp = Some ''2024-10-01 00:00:00'', commit_message = ''a'',
               username = ''u'', previous_hash = None\<rparr>),
      (''h2'', \<lparr>timestamp = Some ''2024-9-01 00:00:00'', commit_message = ''b'',
               username = ''u'', previous_hash = Some ''h1''\<rparr>)]"
  have nc: "\<not> all_canonical ?vs"
    by (simp add: all_canonical_def canonical_def strptime_def format_regex_def re_m_def
      re_d_def re_H_def re_M_def re_S_def in_range_def digit_val_def is_space_def
      valid_datetime_def days_in_month_def is_leap_def strftime_def pad4_def pad2_def digit_char_def)
  show "\<exists>vs h i j. vs \<noteq> [] \<and> \<not> all_canonical vs \<and> latest_version vs = Inr (h, i)
         \<and> fst (last_commit_loop vs) = Some j \<and> timestamp i \<noteq> timestamp j"
    apply (rule exI [where x = ?vs])
    apply (intro exI conjI)
        apply simp
       apply (rule nc)
      apply (rule latest_disagree_example)
     apply (rule last_commit_disagree_example)
    apply simp
    done
qed

theorem latest_version_parsed_vs_string_witness:
  "[(''h1'', \<lparr>timestamp = Some ''2024-01-05 10:00:00'', commit_message = ''a'',
               username = ''u'', previous_hash = None\<rparr>),
    (''h2'', \<lparr>timestamp = Some ''2024-03-01 09:30:00'', commit_message = ''b'',
               username = ''u'', previous_hash = Some ''h1''\<rparr>)] \<noteq> []
   \<and> all_canonical
     [(''h1'', \<lparr>timestamp = Some ''2024-01-05 10:00:00'', commit_message = ''a'',
               username = ''u'', previous_hash = None\<rparr>),
      (''h2'', \<lparr>timestamp = Some ''2024-03-01 09:30:00'', commit_message = ''b'',
               username = ''u'', previous_hash = Some ''h1''\<rparr>)]
   \<and> (\<exists>h i j. latest_version
     [(''h1'', \<lparr>timestamp = Some ''2024-01-05 10:00:00'', commit_message = ''a'',
               username = ''u'', previous_hash = None\<rparr>),
      (''h2'', \<lparr>timestamp = Some ''2024-03-01 09:30:00'', commit_message = ''b'',
               username = ''u'', previous_hash = Some ''h1''\<rparr>)] = Inr (h, i)
     \<and> fst (last_commit_loop
     [(''h1'', \<lparr>timestamp = Some ''2024-01-05 10:00:00'', commit_message = ''a'',
               username = ''u'', previous_hash = None\<rparr>),
      (''h2'', \<lparr>timestamp = Some ''2024-03-01 09:30:00'', commit_message = ''b'',
               username = ''u'', previous_hash = Some ''h1''\<rparr>)]) = Some j
     \<and> timestamp i = timestamp j)"
proof -
  let ?vs = "[(''h1'', \<lparr>timestamp = Some ''2024-01-05 10:00:00'', commit_message = ''a'',
               username = ''u'', previous_hash = None\<rparr>),
      (''h2'', \<lparr>timestamp = Some ''2024-03-01 09:30:00'', commit_message = ''b'',
               username = ''u'', previous_hash = Some ''h1''\<rparr>)]"
  have h: "?vs \<noteq> [] \<and> all_canonical ?vs"
    by code_simp
  from latest_version_parsed_vs_string [THEN conjunct1, THEN spec, THEN mp, OF h] h
  show ?thesis by blast
qed

subsection \<open>The file system and the descending sort\<close>

lemma set_listdir: "set (listdir files d) = {n. map_of files (d, n) \<noteq> None}"
proof -
  have "set (listdir files d) = {n. (d, n) \<in> fst ` set files}"
    by (force simp: listdir_def)
  then show ?thesis by (simp add: map_of_eq_None_iff)
qed

lemma distinct_listdir [simp]: "distinct (listdir files d)"
  by (simp add: listdir_def)

lemma write_file_map_of:
  assumes "write_file files p data now = Inr files'"
  shows "\<exists>f. map_of files' = (map_of files)(p \<mapsto> f) \<and> content f = data \<and> mtime f = now \<and> \<not> locked f"
  using assms
  by (auto simp: write_file_def update_conv' split: option.splits if_splits)

lemma remove_file_map_of:
  assumes "remove_file files p = Inr files'"
  shows "map_of files' = (map_of files)(p := None)"
  using assms by (auto simp: remove_file_def delete_conv' split: option.splits if_splits)

lemma remove_file_ok:
  "map_of files p = Some f \<Longrightarrow> \<not> locked f \<Longrightarrow> remove_file files p = Inr (AList.delete p files)"
  by (simp add: remove_file_def)

lemma py_sorted_reverse_set [simp]: "set (py_sorted_reverse f xs) = set xs"
  by (simp add: py_sorted_reverse_def)

lemma py_sorted_reverse_distinct [simp]: "distinct (py_sorted_reverse f xs) = distinct xs"
  by (simp add: py_sorted_reverse_def distinct_sort)

lemma py_sorted_reverse_length [simp]: "length (py_sorted_reverse f xs) = length xs"
  by (simp add: py_sorted_reverse_def)

lemma py_sorted_reverse_sorted:
  "sorted_wrt (\<lambda>a b. f b \<le> f a) (py_sorted_reverse f xs)"
proof -
  have "sorted (map f (sort_key f (rev xs)))" by (rule sorted_sort_key)
  then have "sorted_wrt (\<lambda>a b. f a \<le> f b) (sort_key f (rev xs))"
    by (simp add: sorted_map)
  then show ?thesis
    unfolding py_sorted_reverse_def by (simp add: sorted_wrt_rev)
qed

text \<open>An element beyond position \<open>n\<close> of the descending list has at least \<open>n\<close> other
  elements that are not older.\<close>

lemma beyond_has_newer:
  assumes d: "distinct xs" and e: "e \<in> set (drop n (py_sorted_reverse f xs))"
  shows "n \<le> card {x \<in> set xs. f e \<le> f x \<and> x \<noteq> e}"
proof -
  let ?L = "py_sorted_reverse f xs"
  have dl: "distinct ?L" using d by simp
  have split: "?L = take n ?L @ drop n ?L" by simp
  have "sorted_wrt (\<lambda>a b. f b \<le> f a) (take n ?L @ drop n ?L)"
    using py_sorted_reverse_sorted [of f xs] by simp
  then have ge: "\<forall>x\<in>set (take n ?L). f e \<le> f x"
    using e unfolding sorted_wrt_append by blast
  have "distinct (take n ?L @ drop n ?L)" using dl by simp
  then have ne: "\<forall>x\<in>set (take n ?L). x \<noteq> e"
    using e unfolding distinct_append by blast
  have len: "n < length ?L" using e by (cases "n < length ?L") auto
  have "card (set (take n ?L)) = n"
    using dl len by (simp add: distinct_card)
  moreover have "set (take n ?L) \<subseteq> {x \<in> set xs. f e \<le> f x \<and> x \<noteq> e}"
    using ge ne by (auto dest: in_set_takeD)
  moreover have "finite {x \<in> set xs. f e \<le> f x \<and> x \<noteq> e}" by simp
  ultimately show ?thesis by (metis card_mono)
qed

subsection \<open>Listing the blobs of a path\<close>

lemma set_map_filter: "set (List.map_filter g xs) = {v. \<exists>x\<in>set xs. g x = Some v}"
  by (force simp: List.map_filter_def)

lemma distinct_map_filter:
  assumes "distinct xs" and inj: "\<And>x y v. g x = Some v \<Longrightarrow> g y = Some v \<Longrightarrow> x = y"
  shows "distinct (List.map_filter g xs)"
  using assms(1)
proof (induction xs)
  case Nil
  then show ?case by (simp add: List.map_filter_simps)
next
  case (Cons x xs)
  show ?case
  proof (cases "g x")
    case None
    then show ?thesis using Cons by (simp add: List.map_filter_simps)
  next
    case (Some v)
    have "v \<notin> set (List.map_filter g xs)"
    proof
      assume "v \<in> set (List.map_filter g xs)"
      then obtain y where "y \<in> set xs" "g y = Some v"
        by (auto simp: set_map_filter)
      with inj [OF Some] Cons.prems show False by auto
    qed
    then show ?thesis using Cons Some by (simp add: List.map_filter_simps)
  qed
qed

lemma endswith_gz [simp]: "endswith (h @ ''.gz'') ''.gz''"
  by (simp add: endswith_def suffix_def)

lemma get_all_backup_files_set:
  "b \<in> set (get_all_backup_files env p st) \<longleftrightarrow>
     (\<exists>n f. map_of (fs st) (version_dir env p, n) = Some f \<and> endswith n ''.gz''
        \<and> b = \<lparr>b_path = (version_dir env p, n), b_hash = fst (splitext n), b_mtime = mtime f\<rparr>)"
  unfolding get_all_backup_files_def Let_def get_backup_path_def
  by (auto simp: set_map_filter set_listdir split: if_splits option.splits)

lemma get_all_backup_files_distinct [simp]: "distinct (get_all_backup_files env p st)"
  unfolding get_all_backup_files_def Let_def get_backup_path_def
  by (simp, rule distinct_map_filter) (auto split: if_splits option.splits)

lemma get_all_backup_files_path:
  "b \<in> set (get_all_backup_files env p st) \<Longrightarrow> fst (b_path b) = version_dir env p"
  by (auto simp: get_all_backup_files_set)

lemma version_dir_not_temp [simp]:
  "version_dir env p \<noteq> dir_join (backup_folder env) ''temp_backups''"
  by (simp add: version_dir_def dir_join_def)

lemma splitext_gz:
  assumes "list_ex (\<lambda>c. c \<noteq> CHR ''.'') h"
  shows "splitext (h @ ''.gz'') = (h, ''.gz'')"
  using assms by (simp add: splitext_def Let_def)

lemma get_cache_key_inj [simp]: "get_cache_key p h = get_cache_key p h' \<longleftrightarrow> h = h'"
  by (simp add: get_cache_key_def)

lemma get_cache_key_prefix [simp]: "startswith (get_cache_key p h) (path_str p @ ''|'')"
  by (simp add: get_cache_key_def startswith_def)

subsection \<open>The deletion loop of the retention pass\<close>

lemma bm_log_error_fields [simp]:
  "fs (bm_log_error m st) = fs st"
  "known_missing_backups (bm_log_error m st) = known_missing_backups st"
  "vm (bm_log_error m st) = vm st"
  "error_boxes (bm_log_error m st) = error_boxes st"
  by (simp_all add: bm_log_error_def)

lemma delete_backup_cases:
  "delete_backup p (st, tr) b =
     (case map_of (fs st) (b_path b) of
        None \<Rightarrow> (bm_log_error ''Failed to delete backup'' st, tr)
      | Some f \<Rightarrow>
          if locked f then (bm_log_error ''Failed to delete backup'' st, tr)
          else (st\<lparr>fs := AList.delete (b_path b) (fs st),
                   known_missing_backups := insert (get_cache_key p (b_hash b)) (known_missing_backups st)\<rparr>,
                del_version (path_str p) (b_hash b) tr))"
  by (simp add: delete_backup_def remove_file_def split: option.splits)

lemma delete_backup_step:
  assumes "delete_backup p (st, tr) b = (st', tr')"
  shows "vm st' = vm st
    \<and> known_missing_backups st \<subseteq> known_missing_backups st'
    \<and> known_missing_backups st' \<subseteq> insert (get_cache_key p (b_hash b)) (known_missing_backups st)
    \<and> (\<forall>q. q \<noteq> b_path b \<longrightarrow> map_of (fs st') q = map_of (fs st) q)
    \<and> (\<forall>q f. map_of (fs st') q = Some f \<longrightarrow> map_of (fs st) q = Some f)
    \<and> (\<forall>f. map_of (fs st) (b_path b) = Some f \<longrightarrow> \<not> locked f \<longrightarrow>
           map_of (fs st') (b_path b) = None \<and> get_cache_key p (b_hash b) \<in> known_missing_backups st')"
proof (cases "map_of (fs st) (b_path b)")
  case None
  with assms show ?thesis by (auto simp: delete_backup_cases)
next
  case (Some f)
  show ?thesis
  proof (cases "locked f")
    case True
    with assms Some show ?thesis by (auto simp: delete_backup_cases)
  next
    case False
    with assms Some have st': "st' = st\<lparr>fs := AList.delete (b_path b) (fs st),
                   known_missing_backups := insert (get_cache_key p (b_hash b)) (known_missing_backups st)\<rparr>"
      by (auto simp: delete_backup_cases)
    show ?thesis
      unfolding st' using Some False by (auto simp: delete_conv')
  qed
qed


lemma delete_backup_vm: "delete_backup p (st, tr) b = (st', tr') \<Longrightarrow> vm st' = vm st"
  using delete_backup_step by blast

lemma delete_backup_cache_mono:
  "delete_backup p (st, tr) b = (st', tr') \<Longrightarrow> known_missing_backups st \<subseteq> known_missing_backups st'"
  using delete_backup_step by blast

lemma delete_backup_cache_upper:
  "delete_backup p (st, tr) b = (st', tr') \<Longrightarrow>
   known_missing_backups st' \<subseteq> insert (get_cache_key p (b_hash b)) (known_missing_backups st)"
  using delete_backup_step by blast

lemma delete_backup_other:
  "delete_backup p (st, tr) b = (st', tr') \<Longrightarrow> q \<noteq> b_path b \<Longrightarrow> map_of (fs st') q = map_of (fs st) q"
  using delete_backup_step by blast

lemma delete_backup_only_removes:
  "delete_backup p (st, tr) b = (st', tr') \<Longrightarrow> map_of (fs st') q = Some f \<Longrightarrow> map_of (fs st) q = Some f"
  using delete_backup_step by blast

lemma delete_backup_removes:
  "delete_backup p (st, tr) b = (st', tr') \<Longrightarrow> map_of (fs st) (b_path b) = Some f \<Longrightarrow> \<not> locked f \<Longrightarrow>
   map_of (fs st') (b_path b) = None \<and> get_cache_key p (b_hash b) \<in> known_missing_backups st'"
  using delete_backup_step by blast


lemma foldl_delete_backup:
  "foldl (delete_backup p) (st, tr) dels = (st', tr') \<Longrightarrow>
   vm st' = vm st
    \<and> known_missing_backups st \<subseteq> known_missing_backups st'
    \<and> known_missing_backups st' \<subseteq> known_missing_backups st \<union> (\<lambda>b. get_cache_key p (b_hash b)) ` set dels
    \<and> (\<forall>q. q \<notin> b_path ` set dels \<longrightarrow> map_of (fs st') q = map_of (fs st) q)
    \<and> (\<forall>q f. map_of (fs st') q = Some f \<longrightarrow> map_of (fs st) q = Some f)"
proof (induction dels arbitrary: st tr)
  case Nil
  then show ?case by simp
next
  case (Cons b dels)
  obtain s1 t1 where s1: "delete_backup p (st, tr) b = (s1, t1)" by (cases "delete_backup p (st, tr) b")
  from Cons.prems have f: "foldl (delete_backup p) (s1, t1) dels = (st', tr')" by (simp add: s1)
  note ih = Cons.IH [OF f]
  have i1: "vm st' = vm s1" using ih by (rule conjunct1)
  have i2: "known_missing_backups s1 \<subseteq> known_missing_backups st'"
    using ih by (elim conjE)
  have i3: "known_missing_backups st' \<subseteq> known_missing_backups s1 \<union> (\<lambda>b. get_cache_key p (b_hash b)) ` set dels"
    using ih by (elim conjE)
  have i4: "\<And>q. q \<notin> b_path ` set dels \<Longrightarrow> map_of (fs st') q = map_of (fs s1) q"
    using ih by (elim conjE) blast
  have i5: "\<And>q f. map_of (fs st') q = Some f \<Longrightarrow> map_of (fs s1) q = Some f"
    using ih by (elim conjE) blast
  have 1: "vm st' = vm st" using i1 delete_backup_vm [OF s1] by simp
  have 2: "known_missing_backups st \<subseteq> known_missing_backups st'"
    using i2 delete_backup_cache_mono [OF s1] by (rule_tac subset_trans)
  have 3: "known_missing_backups st' \<subseteq> known_missing_backups st \<union> (\<lambda>b. get_cache_key p (b_hash b)) ` set (b # dels)"
  proof
    fix k assume "k \<in> known_missing_backups st'"
    with i3 have "k \<in> known_missing_backups s1 \<or> k \<in> (\<lambda>b. get_cache_key p (b_hash b)) ` set dels"
      by blast
    moreover have "k \<in> known_missing_backups s1 \<Longrightarrow> k = get_cache_key p (b_hash b) \<or> k \<in> known_missing_backups st"
      using delete_backup_cache_upper [OF s1] by blast
    ultimately show "k \<in> known_missing_backups st \<union> (\<lambda>b. get_cache_key p (b_hash b)) ` set (b # dels)"
      by auto
  qed
  have 4: "\<forall>q. q \<notin> b_path ` set (b # dels) \<longrightarrow> map_of (fs st') q = map_of (fs st) q"
  proof (intro allI impI)
    fix q assume q: "q \<notin> b_path ` set (b # dels)"
    then have a: "q \<noteq> b_path b" and b: "q \<notin> b_path ` set dels" by auto
    show "map_of (fs st') q = map_of (fs st) q"
      using i4 [OF b] delete_backup_other [OF s1 a] by simp
  qed
  have 5: "\<forall>q f. map_of (fs st') q = Some f \<longrightarrow> map_of (fs st) q = Some f"
  proof (intro allI impI)
    fix q f assume "map_of (fs st') q = Some f"
    then have "map_of (fs s1) q = Some f" by (rule i5)
    then show "map_of (fs st) q = Some f" by (rule delete_backup_only_removes [OF s1])
  qed
  show ?case using 1 2 3 4 5 by (intro conjI)
qed


lemma foldl_delete_vm:
  "foldl (delete_backup p) (st, tr) dels = (st', tr') \<Longrightarrow> vm st' = vm st"
  by (drule foldl_delete_backup) (elim conjE)

lemma foldl_delete_cache_mono:
  "foldl (delete_backup p) (st, tr) dels = (st', tr') \<Longrightarrow>
   known_missing_backups st \<subseteq> known_missing_backups st'"
  by (drule foldl_delete_backup) (elim conjE)

lemma foldl_delete_cache_upper:
  "foldl (delete_backup p) (st, tr) dels = (st', tr') \<Longrightarrow>
   known_missing_backups st' \<subseteq> known_missing_backups st \<union> (\<lambda>b. get_cache_key p (b_hash b)) ` set dels"
  by (drule foldl_delete_backup) (elim conjE)

lemma foldl_delete_other:
  "foldl (delete_backup p) (st, tr) dels = (st', tr') \<Longrightarrow> q \<notin> b_path ` set dels \<Longrightarrow>
   map_of (fs st') q = map_of (fs st) q"
  by (drule foldl_delete_backup) (elim conjE, blast)

lemma foldl_delete_only_removes:
  "foldl (delete_backup p) (st, tr) dels = (st', tr') \<Longrightarrow> map_of (fs st') q = Some f \<Longrightarrow>
   map_of (fs st) q = Some f"
  by (drule foldl_delete_backup) (elim conjE, blast)

lemma foldl_delete_backup_removed:
  assumes "foldl (delete_backup p) (st, tr) dels = (st', tr')"
    and "b \<in> set dels" and "map_of (fs st) (b_path b) = Some f" and "\<not> locked f"
    and "\<forall>b'\<in>set dels. b_path b' = b_path b \<longrightarrow> b_hash b' = b_hash b"
  shows "map_of (fs st') (b_path b) = None \<and> get_cache_key p (b_hash b) \<in> known_missing_backups st'"
  using assms
proof (induction dels arbitrary: st tr)
  case Nil
  then show ?case by simp
next
  case (Cons c dels)
  obtain s1 t1 where s1: "delete_backup p (st, tr) c = (s1, t1)" by (cases "delete_backup p (st, tr) c")
  from Cons.prems(1) have f: "foldl (delete_backup p) (s1, t1) dels = (st', tr')" by (simp add: s1)
  show ?case
  proof (cases "b_path c = b_path b")
    case True
    then have hc: "b_hash c = b_hash b" using Cons.prems(5) by simp
    have pc: "map_of (fs st) (b_path c) = Some f" using Cons.prems(3) True by simp
    from delete_backup_removes [OF s1 pc Cons.prems(4)]
    have n1: "map_of (fs s1) (b_path b) = None" and k1: "get_cache_key p (b_hash b) \<in> known_missing_backups s1"
      using True hc by simp_all
    have "map_of (fs st') (b_path b) = None"
    proof (cases "map_of (fs st') (b_path b)")
      case None then show ?thesis .
    next
      case (Some g)
      then have "map_of (fs s1) (b_path b) = Some g" by (rule foldl_delete_only_removes [OF f])
      with n1 show ?thesis by simp
    qed
    moreover have "get_cache_key p (b_hash b) \<in> known_missing_backups st'"
      using foldl_delete_cache_mono [OF f] k1 by (rule subsetD)
    ultimately show ?thesis by (rule conjI)
  next
    case False
    then have bin: "b \<in> set dels" using Cons.prems(2) by auto
    have pres: "map_of (fs s1) (b_path b) = Some f"
      using delete_backup_other [OF s1, of "b_path b"] False Cons.prems(3) by simp
    have hs: "\<forall>b'\<in>set dels. b_path b' = b_path b \<longrightarrow> b_hash b' = b_hash b"
      using Cons.prems(5) by simp
    show ?thesis
      by (rule Cons.IH [OF f bin pres Cons.prems(4) hs])
  qed
qed

lemma cleanup_bak_loop_cache [simp]:
  "known_missing_backups (cleanup_bak_loop d now ns st) = known_missing_backups st"
  by (induction ns arbitrary: st) (simp_all add: remove_file_def split: option.splits)

lemma cleanup_bak_loop_vm [simp]:
  "vm (cleanup_bak_loop d now ns st) = vm st"
  by (induction ns arbitrary: st) (simp_all add: remove_file_def split: option.splits)

lemma cleanup_bak_loop_other:
  "d' \<noteq> d \<Longrightarrow> map_of (fs (cleanup_bak_loop d now ns st)) (d', n) = map_of (fs st) (d', n)"
proof (induction ns arbitrary: st)
  case Nil
  then show ?case by simp
next
  case (Cons x ns)
  show ?case
  proof (cases "endswith x ''.bak''")
    case False
    then show ?thesis using Cons by simp
  next
    case True
    show ?thesis
    proof (cases "map_of (fs st) (d, x)")
      case None
      then show ?thesis using True by simp
    next
      case (Some f)
      show ?thesis
      proof (cases "ctime f < now - 86400 \<and> \<not> locked f")
        case True
        then have "cleanup_bak_loop d now (x # ns) st
                   = cleanup_bak_loop d now ns (st\<lparr>fs := AList.delete (d, x) (fs st)\<rparr>)"
          using Some \<open>endswith x ''.bak''\<close> by (simp add: remove_file_def)
        then show ?thesis
          using Cons.IH [OF Cons.prems, of "st\<lparr>fs := AList.delete (d, x) (fs st)\<rparr>"] Cons.prems
          by (simp add: delete_conv')
      next
        case False
        then show ?thesis
          using Some \<open>endswith x ''.bak''\<close> Cons by (auto simp: remove_file_def)
      qed
    qed
  qed
qed

lemma cleanup_old_bak_files_cache [simp]:
  "known_missing_backups (cleanup_old_bak_files env now st) = known_missing_backups st"
  by (simp add: cleanup_old_bak_files_def Let_def)

lemma cleanup_old_bak_files_vm [simp]:
  "vm (cleanup_old_bak_files env now st) = vm st"
  by (simp add: cleanup_old_bak_files_def Let_def)

lemma cleanup_old_bak_files_other:
  "d' \<noteq> dir_join (backup_folder env) ''temp_backups'' \<Longrightarrow>
     map_of (fs (cleanup_old_bak_files env now st)) (d', n) = map_of (fs st) (d', n)"
  by (simp add: cleanup_old_bak_files_def Let_def cleanup_bak_loop_other)

lemma cleanup_old_bak_files_vdir [simp]:
  "map_of (fs (cleanup_old_bak_files env now st)) (version_dir env p, n) = map_of (fs st) (version_dir env p, n)"
  by (rule cleanup_old_bak_files_other) simp

subsection \<open>Hashes and blob names\<close>

lemma hex_chars: "is_hex_digest h \<Longrightarrow> \<forall>c\<in>set h. c \<in> set ''0123456789abcdef''"
  unfolding is_hex_digest_def list_all_iff by (rule conjunct2)

lemma hex_nonempty: "is_hex_digest h \<Longrightarrow> h \<noteq> []"
  unfolding is_hex_digest_def by (rule conjunct1)

lemma dot_not_hex: "CHR ''.'' \<notin> set ''0123456789abcdef''"
  by simp

lemma hex_no_dot: "is_hex_digest h \<Longrightarrow> CHR ''.'' \<notin> set h"
  using hex_chars dot_not_hex by blast

lemma hex_list_ex: "is_hex_digest h \<Longrightarrow> list_ex (\<lambda>c. c \<noteq> CHR ''.'') h"
proof -
  assume h: "is_hex_digest h"
  from hex_nonempty [OF h] obtain c cs where hc: "h = c # cs" by (cases h) simp_all
  from hex_no_dot [OF h] have "c \<noteq> CHR ''.''" unfolding hc by auto
  then show ?thesis unfolding hc by simp
qed

lemma splitext_hex [simp]: "is_hex_digest h \<Longrightarrow> splitext (h @ ''.gz'') = (h, ''.gz'')"
  by (rule splitext_gz) (rule hex_list_ex)

lemma splitext_gz_hash:
  assumes h: "is_hex_digest h" and gz: "endswith n ''.gz''"
  shows "fst (splitext n) = h \<longleftrightarrow> n = h @ ''.gz''"
proof
  assume "n = h @ ''.gz''"
  then show "fst (splitext n) = h" using h by simp
next
  assume e: "fst (splitext n) = h"
  from gz obtain r where n: "n = r @ ''.gz''" by (auto simp: endswith_def suffix_def)
  show "n = h @ ''.gz''"
  proof (cases "list_ex (\<lambda>c. c \<noteq> CHR ''.'') r")
    case True
    then have "splitext n = (r, ''.gz'')" unfolding n by (rule splitext_gz)
    with e n show ?thesis by simp
  next
    case False
    then have "splitext n = (n, [])" unfolding n by (simp add: splitext_def Let_def)
    with e have "n = h" by simp
    with n hex_no_dot [OF h] show ?thesis by auto
  qed
qed

subsection \<open>The retention pass and \<^verbatim>\<open>create_backup\<close>\<close>

lemma py_slice_from_Nil [simp]: "py_slice_from [] n = []"
  by (simp add: py_slice_from_def)

lemma backups_to_delete_empty:
  "get_all_backup_files env p st = [] \<Longrightarrow> backups_to_delete env p mx st = []"
  by (simp add: backups_to_delete_def)

lemma clean_old_backups_effect:
  assumes ok: "clean_old_backups env p mx tr now st = (Inr tr', st')"
  shows "\<exists>s1 t1. foldl (delete_backup p) (st, tr) (backups_to_delete env p mx st) = (s1, t1)
        \<and> known_missing_backups st' = known_missing_backups s1
        \<and> (\<forall>n. map_of (fs st') (version_dir env p, n) = map_of (fs s1) (version_dir env p, n))"
proof (cases "get_all_backup_files env p st = []")
  case True
  then have "st' = st" using ok by (simp add: clean_old_backups_def)
  then show ?thesis using True by (simp add: backups_to_delete_empty)
next
  case ne: False
  show ?thesis
  proof (cases "int (length (get_all_backup_files env p st)) > mx")
    case False
    then have "st' = cleanup_old_bak_files env now st"
      using ok ne by (simp add: clean_old_backups_def)
    moreover have "backups_to_delete env p mx st = []"
      using False by (simp add: backups_to_delete_def)
    ultimately show ?thesis by simp
  next
    case True
    then have del: "backups_to_delete env p mx st = py_slice_from (get_all_backup_files env p st) mx"
      by (simp add: backups_to_delete_def)
    obtain s1 t1 where acc: "foldl (delete_backup p) (st, tr) (py_slice_from (get_all_backup_files env p st) mx) = (s1, t1)"
      by (cases "foldl (delete_backup p) (st, tr) (py_slice_from (get_all_backup_files env p st) mx)")
    have "\<exists>v. st' = cleanup_old_bak_files env now (s1\<lparr>vm := v\<rparr>)"
    proof (cases "has_version_manager env \<and> map_of t1 (path_str p) \<noteq> None")
      case False
      then have "st' = cleanup_old_bak_files env now s1"
        using ok ne True acc by (auto simp: clean_old_backups_def Let_def)
      then have "st' = cleanup_old_bak_files env now (s1\<lparr>vm := vm s1\<rparr>)" by simp
      then show ?thesis by blast
    next
      case save: True
      obtain r v where sv: "save_tracked_files (vm_environment env) t1 (vm s1) = (r, v)"
        by (cases "save_tracked_files (vm_environment env) t1 (vm s1)")
      show ?thesis
      proof (cases r)
        case (Inl e)
        then have False using ok ne True acc save sv by (auto simp: clean_old_backups_def Let_def)
        then show ?thesis ..
      next
        case (Inr u)
        then have "st' = cleanup_old_bak_files env now (s1\<lparr>vm := v\<rparr>)"
          using ok ne True acc save sv by (auto simp: clean_old_backups_def Let_def)
        then show ?thesis by blast
      qed
    qed
    then obtain v where st': "st' = cleanup_old_bak_files env now (s1\<lparr>vm := v\<rparr>)" by blast
    show ?thesis
      unfolding del using acc by (simp add: st')
  qed
qed

lemma clear_missing_cache_fields [simp]:
  "fs (clear_missing_cache_for_file p st) = fs st"
  "vm (clear_missing_cache_for_file p st) = vm st"
  by (simp_all add: clear_missing_cache_for_file_def)

lemma clear_missing_cache_key [simp]:
  "get_cache_key p h \<notin> known_missing_backups (clear_missing_cache_for_file p st)"
  by (simp add: clear_missing_cache_for_file_def)

lemma get_all_backup_files_cong:
  "fs a = fs b \<Longrightarrow> get_all_backup_files env p a = get_all_backup_files env p b"
  by (simp add: get_all_backup_files_def cong: if_cong option.case_cong)

lemma backups_to_delete_cong:
  "fs a = fs b \<Longrightarrow> backups_to_delete env p mx a = backups_to_delete env p mx b"
  by (simp add: backups_to_delete_def get_all_backup_files_cong [of a b])

lemma create_backup_success:
  assumes ok: "create_backup env p h settings now st = (Inr bp, st')"
  shows "\<exists>data fs2 v tr s1 t1.
      bp = get_backup_path env p h
    \<and> read_file (fs st) p = Inr data
    \<and> write_file (fs st) (get_backup_path env p h)
         (gzip_compress env (if p = get_backup_path env p h then [] else data)) now = Inr fs2
    \<and> foldl (delete_backup p) ((clear_missing_cache_for_file p st)\<lparr>fs := fs2, vm := v\<rparr>, tr)
         (backups_to_delete env p (case settings of None \<Rightarrow> 5 | Some m \<Rightarrow> m)
            ((clear_missing_cache_for_file p st)\<lparr>fs := fs2, vm := v\<rparr>)) = (s1, t1)
    \<and> known_missing_backups st' = known_missing_backups s1
    \<and> (\<forall>n. map_of (fs st') (version_dir env p, n) = map_of (fs s1) (version_dir env p, n))"
proof -
  let ?bp = "get_backup_path env p h"
  let ?st1 = "clear_missing_cache_for_file p st"
  let ?mx = "case settings of None \<Rightarrow> 5 | Some m \<Rightarrow> m"
  obtain data where rd: "read_file (fs st) p = Inr data"
    using ok by (cases "read_file (fs st) p") (simp_all add: create_backup_def Let_def)
  let ?z = "gzip_compress env (if p = ?bp then [] else data)"
  obtain fs2 where wr: "write_file (fs st) ?bp ?z now = Inr fs2"
    using ok rd by (cases "write_file (fs st) ?bp ?z now") (simp_all add: create_backup_def Let_def)
  let ?ld = "if has_version_manager env
             then load_tracked_files (vm_environment env) (vm (?st1\<lparr>fs := fs2\<rparr>))
             else (Inr [], vm (?st1\<lparr>fs := fs2\<rparr>))"
  obtain r v where ld: "?ld = (r, v)" by (cases ?ld)
  obtain tr where r: "r = Inr tr"
    using ok rd wr ld by (cases r) (simp_all add: create_backup_def Let_def)
  let ?st2 = "?st1\<lparr>fs := fs2, vm := v\<rparr>"
  obtain c st3 where cl: "clean_old_backups env p ?mx tr now ?st2 = (c, st3)"
    by (cases "clean_old_backups env p ?mx tr now ?st2")
  have unfold: "create_backup env p h settings now st =
      (case c of Inl e \<Rightarrow> (Inl e, bm_log_error ''Failed to create backup'' st3)
               | Inr x \<Rightarrow> (Inr ?bp, st3))"
    using rd wr ld r cl by (simp add: create_backup_def Let_def split: sum.splits)
  obtain tr' where c: "c = Inr tr'"
    using ok unfold by (cases c) simp_all
  have bp: "bp = ?bp" and st': "st' = st3"
    using ok unfold c by simp_all
  from clean_old_backups_effect [OF cl [unfolded c]] obtain s1 t1 where
    e: "foldl (delete_backup p) (?st2, tr) (backups_to_delete env p ?mx ?st2) = (s1, t1)"
       "known_missing_backups st3 = known_missing_backups s1"
       "\<forall>n. map_of (fs st3) (version_dir env p, n) = map_of (fs s1) (version_dir env p, n)"
    by blast
  show ?thesis
    using bp rd wr e unfolding st' by blast
qed

lemma get_all_backup_files_hash:
  "b \<in> set (get_all_backup_files env p st) \<Longrightarrow> b_hash b = fst (splitext (snd (b_path b)))"
  by (auto simp: get_all_backup_files_set)

lemma get_all_backup_files_form:
  "\<exists>xs. distinct xs \<and> get_all_backup_files env p st = py_sorted_reverse b_mtime xs"
proof -
  obtain xs where xs: "get_all_backup_files env p st = py_sorted_reverse b_mtime xs"
    unfolding get_all_backup_files_def Let_def by blast
  have "distinct (py_sorted_reverse b_mtime xs)"
    using get_all_backup_files_distinct [of env p st] unfolding xs .
  then have "distinct xs" by simp
  with xs show ?thesis by blast
qed

lemma backups_to_delete_subset:
  "set (backups_to_delete env p mx st) \<subseteq> set (get_all_backup_files env p st)"
  by (auto simp: backups_to_delete_def Let_def py_slice_from_def dest: in_set_dropD)

lemma backups_to_delete_nonneg:
  "0 \<le> mx \<Longrightarrow> backups_to_delete env p mx st = drop (nat mx) (get_all_backup_files env p st)"
  by (simp add: backups_to_delete_def Let_def py_slice_from_def)

lemma to_delete_has_newer:
  assumes mx: "0 \<le> mx" and b: "b \<in> set (backups_to_delete env p mx st)"
  shows "nat mx \<le> card {x \<in> set (get_all_backup_files env p st). b_mtime b \<le> b_mtime x \<and> x \<noteq> b}"
proof -
  obtain xs where xs: "distinct xs" "get_all_backup_files env p st = py_sorted_reverse b_mtime xs"
    using get_all_backup_files_form by blast
  from b have "b \<in> set (drop (nat mx) (py_sorted_reverse b_mtime xs))"
    unfolding backups_to_delete_nonneg [OF mx] xs(2) .
  from beyond_has_newer [OF xs(1) this] show ?thesis
    unfolding xs(2) by simp
qed

lemma beyond_if_enough_kept:
  assumes d: "distinct L" and b: "b \<in> set L" and A: "A \<subseteq> set L" "b \<notin> A"
    and k: "A \<inter> set (drop n L) = {}" and c: "n \<le> card A"
  shows "b \<in> set (drop n L)"
proof (rule ccontr)
  assume nb: "b \<notin> set (drop n L)"
  have u: "set L = set (take n L) \<union> set (drop n L)"
    using set_append [of "take n L" "drop n L"] by simp
  from b nb u have bt: "b \<in> set (take n L)" by blast
  from A(1) k u have sub: "A \<subseteq> set (take n L)" by blast
  with bt A(2) have "insert b A \<subseteq> set (take n L)" by blast
  then have "card (insert b A) \<le> card (set (take n L))" by (simp add: card_mono)
  moreover have "finite A" using sub finite_subset by blast
  then have "card (insert b A) = Suc (card A)" using A(2) by simp
  moreover have "card (set (take n L)) \<le> n"
    using card_length [of "take n L"] by simp
  ultimately show False using c by simp
qed

lemma get_all_backup_files_by_name:
  assumes "x \<in> set (get_all_backup_files env p st)" "y \<in> set (get_all_backup_files env p st)"
    and "snd (b_path x) = snd (b_path y)"
  shows "x = y"
  using assms by (auto simp: get_all_backup_files_set)

text \<open>A blob is not picked for deletion when fewer than \<open>max_backups\<close> other blobs of the
  directory are at least as new: all blobs outside a set \<open>E\<close> of names, smaller than
  \<open>max_backups\<close>, are strictly older.\<close>

lemma not_deleted_if_few_newer:
  assumes mx: "0 \<le> mx" and fin: "finite E" and cE: "int (card E) < mx"
    and g: "map_of (fs st) (version_dir env p, m) = Some g"
    and older: "\<forall>n f. map_of (fs st) (version_dir env p, n) = Some f \<longrightarrow> n \<noteq> m \<longrightarrow> n \<notin> E
                  \<longrightarrow> mtime f < mtime g"
  shows "(version_dir env p, m) \<notin> b_path ` set (backups_to_delete env p mx st)"
proof
  let ?L = "get_all_backup_files env p st"
  assume "(version_dir env p, m) \<in> b_path ` set (backups_to_delete env p mx st)"
  then obtain b where b: "b \<in> set (backups_to_delete env p mx st)" and pb: "b_path b = (version_dir env p, m)"
    by auto
  from backups_to_delete_subset b have bL: "b \<in> set ?L" by (rule subsetD)
  then have mb: "b_mtime b = mtime g"
    using g pb by (auto simp: get_all_backup_files_set)
  let ?A = "{x \<in> set ?L. b_mtime b \<le> b_mtime x \<and> x \<noteq> b}"
  have c: "nat mx \<le> card ?A" by (rule to_delete_has_newer [OF mx b])
  have inj: "inj_on (snd \<circ> b_path) ?A"
    by (rule inj_onI) (auto intro: get_all_backup_files_by_name)
  have img: "(snd \<circ> b_path) ` ?A \<subseteq> E"
  proof
    fix n assume "n \<in> (snd \<circ> b_path) ` ?A"
    then obtain x where x: "x \<in> set ?L" "b_mtime b \<le> b_mtime x" "x \<noteq> b" "n = snd (b_path x)"
      by auto
    from x(1) obtain f where f: "map_of (fs st) (version_dir env p, n) = Some f" "b_mtime x = mtime f"
      using x(4) by (auto simp: get_all_backup_files_set)
    have "n \<noteq> m"
    proof
      assume "n = m"
      then have "snd (b_path x) = snd (b_path b)" using x(4) pb by simp
      from get_all_backup_files_by_name [OF x(1) bL this] x(3) show False by simp
    qed
    show "n \<in> E"
    proof (rule ccontr)
      assume "n \<notin> E"
      with older f(1) \<open>n \<noteq> m\<close> have "mtime f < mtime g" by blast
      with x(2) mb f(2) show False by simp
    qed
  qed
  from card_inj_on_le [OF inj img fin] have "card ?A \<le> card E" .
  with c cE show False by linarith
qed

lemma create_backup_written:
  assumes ok: "create_backup env p h settings now st = (Inr bp, st')"
  obtains data fs2 where "read_file (fs st) p = Inr data"
    and "write_file (fs st) (get_backup_path env p h)
           (gzip_compress env (if p = get_backup_path env p h then [] else data)) now = Inr fs2"
    and "bp = get_backup_path env p h"
  using create_backup_success [OF ok] by blast

text \<open>What a successful \<^verbatim>\<open>create_backup\<close> leaves behind, in terms of the file system
  \<open>fs2\<close> right after the blob was written and of the blobs \<open>D\<close> picked for deletion there.\<close>

lemma create_backup_facts:
  assumes ok: "create_backup env p h settings now st = (Inr bp, st')"
    and rd: "read_file (fs st) p = Inr data"
    and wr: "write_file (fs st) (get_backup_path env p h)
           (gzip_compress env (if p = get_backup_path env p h then [] else data)) now = Inr fs2"
    and D: "D = backups_to_delete env p (case settings of None \<Rightarrow> 5 | Some m \<Rightarrow> m) (st\<lparr>fs := fs2\<rparr>)"
  shows kept: "\<And>n. (version_dir env p, n) \<notin> b_path ` set D
           \<Longrightarrow> map_of (fs st') (version_dir env p, n) = map_of fs2 (version_dir env p, n)"
    and only_removes: "\<And>n f. map_of (fs st') (version_dir env p, n) = Some f \<Longrightarrow> map_of fs2 (version_dir env p, n) = Some f"
    and removed: "\<And>b f. b \<in> set D \<Longrightarrow> map_of fs2 (b_path b) = Some f \<Longrightarrow> \<not> locked f
           \<Longrightarrow> map_of (fs st') (b_path b) = None \<and> get_cache_key p (b_hash b) \<in> known_missing_backups st'"
    and cache_upper: "known_missing_backups st' \<subseteq> known_missing_backups (clear_missing_cache_for_file p st)
          \<union> (\<lambda>b. get_cache_key p (b_hash b)) ` set D"
    and cache_lower: "known_missing_backups (clear_missing_cache_for_file p st) \<subseteq> known_missing_backups st'"
proof -
  let ?mx = "case settings of None \<Rightarrow> 5 | Some m \<Rightarrow> m"
  let ?vd = "version_dir env p"
  let ?bp = "get_backup_path env p h"
  from create_backup_success [OF ok] obtain data' fs2' v tr s1 t1 where
    rd': "read_file (fs st) p = Inr data'"
    and wr': "write_file (fs st) ?bp (gzip_compress env (if p = ?bp then [] else data')) now = Inr fs2'"
    and fl: "foldl (delete_backup p) ((clear_missing_cache_for_file p st)\<lparr>fs := fs2', vm := v\<rparr>, tr)
         (backups_to_delete env p ?mx ((clear_missing_cache_for_file p st)\<lparr>fs := fs2', vm := v\<rparr>)) = (s1, t1)"
    and km: "known_missing_backups st' = known_missing_backups s1"
    and mp: "\<forall>n. map_of (fs st') (?vd, n) = map_of (fs s1) (?vd, n)"
    by blast
  from rd rd' have dd: "data' = data" by simp
  have "Inr fs2' = (Inr fs2 :: exn + filesystem)"
    using wr wr' unfolding dd by (rule_tac trans [OF sym])
  then have fs2': "fs2' = fs2" by simp
  let ?S = "(clear_missing_cache_for_file p st)\<lparr>fs := fs2, vm := v\<rparr>"
  have DS: "backups_to_delete env p ?mx ?S = D"
    unfolding D by (rule backups_to_delete_cong) simp
  note fl' = fl [unfolded fs2' DS]
  show "\<And>n. (?vd, n) \<notin> b_path ` set D \<Longrightarrow> map_of (fs st') (?vd, n) = map_of fs2 (?vd, n)"
  proof -
    fix n assume "(?vd, n) \<notin> b_path ` set D"
    from foldl_delete_other [OF fl' this] mp show "map_of (fs st') (?vd, n) = map_of fs2 (?vd, n)"
      by simp
  qed
  show "\<And>n f. map_of (fs st') (?vd, n) = Some f \<Longrightarrow> map_of fs2 (?vd, n) = Some f"
  proof -
    fix n f assume "map_of (fs st') (?vd, n) = Some f"
    with mp have "map_of (fs s1) (?vd, n) = Some f" by simp
    from foldl_delete_only_removes [OF fl' this] show "map_of fs2 (?vd, n) = Some f" by simp
  qed
  show "\<And>b f. b \<in> set D \<Longrightarrow> map_of fs2 (b_path b) = Some f \<Longrightarrow> \<not> locked f
           \<Longrightarrow> map_of (fs st') (b_path b) = None \<and> get_cache_key p (b_hash b) \<in> known_missing_backups st'"
  proof -
    fix b f assume b: "b \<in> set D" and f: "map_of fs2 (b_path b) = Some f" and l: "\<not> locked f"
    have sub: "set D \<subseteq> set (get_all_backup_files env p (st\<lparr>fs := fs2\<rparr>))"
      unfolding D by (rule backups_to_delete_subset)
    have hs: "\<forall>b'\<in>set D. b_path b' = b_path b \<longrightarrow> b_hash b' = b_hash b"
    proof (intro ballI impI)
      fix b' assume b': "b' \<in> set D" and e: "b_path b' = b_path b"
      from sub b' have "b' \<in> set (get_all_backup_files env p (st\<lparr>fs := fs2\<rparr>))" by (rule subsetD)
      then have 1: "b_hash b' = fst (splitext (snd (b_path b')))" by (rule get_all_backup_files_hash)
      from sub b have "b \<in> set (get_all_backup_files env p (st\<lparr>fs := fs2\<rparr>))" by (rule subsetD)
      then have 2: "b_hash b = fst (splitext (snd (b_path b)))" by (rule get_all_backup_files_hash)
      from 1 2 e show "b_hash b' = b_hash b" by simp
    qed
    have f': "map_of (fs ?S) (b_path b) = Some f" using f by simp
    from foldl_delete_backup_removed [OF fl' b f' l hs]
    have r: "map_of (fs s1) (b_path b) = None" "get_cache_key p (b_hash b) \<in> known_missing_backups s1"
      by simp_all
    from sub b have "b \<in> set (get_all_backup_files env p (st\<lparr>fs := fs2\<rparr>))" by (rule subsetD)
    then have "fst (b_path b) = ?vd" by (rule get_all_backup_files_path)
    then obtain n where "b_path b = (?vd, n)" by (cases "b_path b") simp
    with mp r(1) have "map_of (fs st') (b_path b) = None" by simp
    with r(2) km show "map_of (fs st') (b_path b) = None \<and> get_cache_key p (b_hash b) \<in> known_missing_backups st'"
      by simp
  qed
  show "known_missing_backups st' \<subseteq> known_missing_backups (clear_missing_cache_for_file p st)
          \<union> (\<lambda>b. get_cache_key p (b_hash b)) ` set D"
    using foldl_delete_cache_upper [OF fl'] km by simp
  show "known_missing_backups (clear_missing_cache_for_file p st) \<subseteq> known_missing_backups st'"
    using foldl_delete_cache_mono [OF fl'] km by simp
qed

lemma map_of_dir_entries: "map_of (dir_entries files d) (d, n) = map_of files (d, n)"
  unfolding dir_entries_def by (induction files) auto

lemma same_blobs_map_of:
  "same_blobs env p a b \<Longrightarrow> map_of (fs b) (version_dir env p, n) = map_of (fs a) (version_dir env p, n)"
  unfolding same_blobs_def by (metis map_of_dir_entries)

lemma same_blobs_cache: "same_blobs env p a b \<Longrightarrow> known_missing_backups b = known_missing_backups a"
  unfolding same_blobs_def by (rule conjunct1)

lemma blobs_older_map_of:
  assumes "blobs_older env p t st" "map_of (fs st) (version_dir env p, n) = Some f"
  shows "mtime f < t"
proof -
  from assms(2) have "map_of (dir_entries (fs st) (version_dir env p)) (version_dir env p, n) = Some f"
    by (simp add: map_of_dir_entries)
  then have "((version_dir env p, n), f) \<in> set (dir_entries (fs st) (version_dir env p))"
    by (rule map_of_SomeD)
  with assms(1) show ?thesis unfolding blobs_older_def list_all_iff by auto
qed

text \<open>The blob just written is kept when \<open>max_backups\<close> is at least one and every other
  entry of the directory is older.\<close>

lemma create_backup_keeps_new:
  assumes ok: "create_backup env p h settings now st = (Inr bp, st')"
    and mx: "1 \<le> (case settings of None \<Rightarrow> 5 | Some m \<Rightarrow> m)"
    and older: "\<forall>n f. map_of (fs st) (version_dir env p, n) = Some f \<longrightarrow> n \<noteq> h @ ''.gz'' \<longrightarrow> mtime f < now"
  shows "\<exists>data fnew. read_file (fs st) p = Inr data
      \<and> map_of (fs st') (get_backup_path env p h) = Some fnew
      \<and> content fnew = gzip_compress env (if p = get_backup_path env p h then [] else data)
      \<and> mtime fnew = now \<and> \<not> locked fnew"
proof -
  let ?mx = "case settings of None \<Rightarrow> 5 | Some m \<Rightarrow> m"
  let ?vd = "version_dir env p"
  let ?bp = "get_backup_path env p h"
  from ok obtain data fs2 where rd: "read_file (fs st) p = Inr data"
    and wr: "write_file (fs st) ?bp (gzip_compress env (if p = ?bp then [] else data)) now = Inr fs2"
    by (rule create_backup_written)
  from write_file_map_of [OF wr] obtain fnew where
    fnew: "map_of fs2 = (map_of (fs st))(?bp \<mapsto> fnew)"
      "content fnew = gzip_compress env (if p = ?bp then [] else data)" "mtime fnew = now" "\<not> locked fnew"
    by blast
  have bp: "?bp = (?vd, h @ ''.gz'')" by (simp add: get_backup_path_def)
  let ?S = "st\<lparr>fs := fs2\<rparr>"
  have g: "map_of (fs ?S) (?vd, h @ ''.gz'') = Some fnew" using fnew(1) bp by simp
  have o: "\<forall>n f. map_of (fs ?S) (?vd, n) = Some f \<longrightarrow> n \<noteq> h @ ''.gz'' \<longrightarrow> n \<notin> {} \<longrightarrow> mtime f < mtime fnew"
  proof (intro allI impI)
    fix n f assume "map_of (fs ?S) (?vd, n) = Some f" and n: "n \<noteq> h @ ''.gz''"
    then have "map_of (fs st) (?vd, n) = Some f" using fnew(1) bp by simp
    with older n show "mtime f < mtime fnew" unfolding fnew(3) by blast
  qed
  have "(?vd, h @ ''.gz'') \<notin> b_path ` set (backups_to_delete env p ?mx ?S)"
    by (rule not_deleted_if_few_newer [OF _ _ _ g o]) (use mx in simp_all)
  from create_backup_facts(1) [OF ok rd wr refl this]
  have "map_of (fs st') ?bp = Some fnew" using g bp by simp
  with rd fnew show ?thesis by blast
qed

lemma delete_backup_cache_source:
  assumes s: "delete_backup p (st, tr) b = (st', tr')" and k: "k \<in> known_missing_backups st'"
  shows "k \<in> known_missing_backups st \<or> (k = get_cache_key p (b_hash b) \<and> map_of (fs st') (b_path b) = None)"
proof (cases "map_of (fs st) (b_path b)")
  case None
  with s k show ?thesis by (auto simp: delete_backup_cases)
next
  case (Some f)
  show ?thesis
  proof (cases "locked f")
    case True
    with s k Some show ?thesis by (auto simp: delete_backup_cases)
  next
    case False
    with s Some have st': "st' = st\<lparr>fs := AList.delete (b_path b) (fs st),
                   known_missing_backups := insert (get_cache_key p (b_hash b)) (known_missing_backups st)\<rparr>"
      by (auto simp: delete_backup_cases)
    show ?thesis using k unfolding st' by (auto simp: delete_conv')
  qed
qed

lemma foldl_delete_cache_source:
  "foldl (delete_backup p) (st, tr) dels = (st', tr') \<Longrightarrow> k \<in> known_missing_backups st' \<Longrightarrow>
   k \<in> known_missing_backups st
   \<or> (\<exists>b\<in>set dels. k = get_cache_key p (b_hash b) \<and> map_of (fs st') (b_path b) = None)"
proof (induction dels arbitrary: st tr)
  case Nil
  then show ?case by simp
next
  case (Cons b dels)
  obtain s1 t1 where s1: "delete_backup p (st, tr) b = (s1, t1)" by (cases "delete_backup p (st, tr) b")
  from Cons.prems(1) have f: "foldl (delete_backup p) (s1, t1) dels = (st', tr')" by (simp add: s1)
  from Cons.IH [OF f Cons.prems(2)]
  consider (a) "k \<in> known_missing_backups s1"
    | (b) "\<exists>b\<in>set dels. k = get_cache_key p (b_hash b) \<and> map_of (fs st') (b_path b) = None"
    by blast
  then show ?case
  proof cases
    case b
    then show ?thesis by auto
  next
    case a
    from delete_backup_cache_source [OF s1 a]
    show ?thesis
    proof
      assume "k \<in> known_missing_backups st"
      then show ?thesis ..
    next
      assume kb: "k = get_cache_key p (b_hash b) \<and> map_of (fs s1) (b_path b) = None"
      have "map_of (fs st') (b_path b) = None"
      proof (cases "map_of (fs st') (b_path b)")
        case None then show ?thesis .
      next
        case (Some g)
        then have "map_of (fs s1) (b_path b) = Some g" by (rule foldl_delete_only_removes [OF f])
        with kb show ?thesis by simp
      qed
      with kb show ?thesis by auto
    qed
  qed
qed

text \<open>After a successful \<^verbatim>\<open>create_backup\<close> the negative cache is accurate for the
  path: a cached hash has no blob at the primary location.\<close>

lemma create_backup_cache_accurate:
  assumes ok: "create_backup env p h settings now st = (Inr bp, st')"
    and hex: "is_hex_digest h'" and k: "get_cache_key p h' \<in> known_missing_backups st'"
  shows "map_of (fs st') (get_backup_path env p h') = None"
proof -
  let ?mx = "case settings of None \<Rightarrow> 5 | Some m \<Rightarrow> m"
  let ?vd = "version_dir env p"
  from create_backup_success [OF ok] obtain fs2 v tr s1 t1 where
    fl: "foldl (delete_backup p) ((clear_missing_cache_for_file p st)\<lparr>fs := fs2, vm := v\<rparr>, tr)
         (backups_to_delete env p ?mx ((clear_missing_cache_for_file p st)\<lparr>fs := fs2, vm := v\<rparr>)) = (s1, t1)"
    and km: "known_missing_backups st' = known_missing_backups s1"
    and mp: "\<forall>n. map_of (fs st') (?vd, n) = map_of (fs s1) (?vd, n)"
    by blast
  let ?S = "(clear_missing_cache_for_file p st)\<lparr>fs := fs2, vm := v\<rparr>"
  from k km have k1: "get_cache_key p h' \<in> known_missing_backups s1" by simp
  have nk: "get_cache_key p h' \<notin> known_missing_backups ?S" by simp
  from foldl_delete_cache_source [OF fl k1] nk
  obtain b where b: "b \<in> set (backups_to_delete env p ?mx ?S)"
    and kb: "get_cache_key p h' = get_cache_key p (b_hash b)" and gone: "map_of (fs s1) (b_path b) = None"
    by blast
  from backups_to_delete_subset b have bL: "b \<in> set (get_all_backup_files env p ?S)" by (rule subsetD)
  then obtain n where n: "b_path b = (?vd, n)" "endswith n ''.gz''" "b_hash b = fst (splitext n)"
    by (auto simp: get_all_backup_files_set)
  from kb have "fst (splitext n) = h'" using n(3) by simp
  then have "n = h' @ ''.gz''" using splitext_gz_hash [OF hex n(2)] by simp
  then show ?thesis using gone n(1) mp by (simp add: get_backup_path_def)
qed

subsection \<open>The existence check\<close>

lemma check_cached:
  "get_cache_key p h \<in> known_missing_backups st \<Longrightarrow> check_backup_exists env p h st = (False, st)"
  by (simp add: check_backup_exists_def)

lemma check_primary:
  "get_cache_key p h \<notin> known_missing_backups st \<Longrightarrow> map_of (fs st) (get_backup_path env p h) = Some f
   \<Longrightarrow> check_backup_exists env p h st = (True, st)"
  by (simp add: check_backup_exists_def path_exists_def)

lemma check_legacy:
  "get_cache_key p h \<notin> known_missing_backups st \<Longrightarrow> map_of (fs st) (old_backup_path env p h) = Some f
   \<Longrightarrow> check_backup_exists env p h st = (True, st)"
  by (simp add: check_backup_exists_def path_exists_def)

lemma check_absent:
  "get_cache_key p h \<notin> known_missing_backups st \<Longrightarrow> map_of (fs st) (get_backup_path env p h) = None
   \<Longrightarrow> map_of (fs st) (old_backup_path env p h) = None
   \<Longrightarrow> check_backup_exists env p h st
       = (False, st\<lparr>known_missing_backups := insert (get_cache_key p h) (known_missing_backups st)\<rparr>)"
  by (simp add: check_backup_exists_def path_exists_def)

lemma check_false_cached:
  assumes "check_backup_exists env p h st = (False, st')"
  shows "get_cache_key p h \<in> known_missing_backups st'"
  using assms by (auto simp: check_backup_exists_def Let_def split: if_splits)

lemma check_cache_mono:
  "known_missing_backups st \<subseteq> known_missing_backups (snd (check_backup_exists env p h st))"
  by (auto simp: check_backup_exists_def Let_def)

lemma check_fs [simp]: "fs (snd (check_backup_exists env p h st)) = fs st"
  by (simp add: check_backup_exists_def Let_def)

lemma create_backup_new_not_cached:
  assumes ok: "create_backup env p h settings now st = (Inr bp, st')"
    and mx: "1 \<le> (case settings of None \<Rightarrow> 5 | Some m \<Rightarrow> m)"
    and older: "\<forall>n f. map_of (fs st) (version_dir env p, n) = Some f \<longrightarrow> n \<noteq> h @ ''.gz'' \<longrightarrow> mtime f < now"
    and hex: "is_hex_digest h"
  shows "get_cache_key p h \<notin> known_missing_backups st'"
proof
  assume "get_cache_key p h \<in> known_missing_backups st'"
  from create_backup_cache_accurate [OF ok hex this]
  have "map_of (fs st') (get_backup_path env p h) = None" .
  with create_backup_keeps_new [OF ok mx older] show False by auto
qed

lemma blobs_older_others:
  "blobs_older env p t st \<Longrightarrow>
   \<forall>n f. map_of (fs st) (version_dir env p, n) = Some f \<longrightarrow> n \<noteq> x \<longrightarrow> mtime f < t"
  using blobs_older_map_of by blast

lemma get_backup_path_inj [simp]: "get_backup_path env p h = get_backup_path env p h' \<longleftrightarrow> h = h'"
  by (simp add: get_backup_path_def)

text \<open>A hash of the path found in the negative cache after a successful
  \<^verbatim>\<open>create_backup\<close> was put there by that call: its blob was there and was deleted.\<close>

lemma create_backup_cache_fresh:
  assumes ok: "create_backup env p h settings now st = (Inr bp, st')"
    and hex: "is_hex_digest h'" and k: "get_cache_key p h' \<in> known_missing_backups st'"
  shows "h' = h \<or> map_of (fs st) (get_backup_path env p h') \<noteq> None"
proof -
  let ?mx = "case settings of None \<Rightarrow> 5 | Some m \<Rightarrow> m"
  let ?vd = "version_dir env p"
  let ?bp = "get_backup_path env p h"
  from create_backup_success [OF ok] obtain data fs2 v tr s1 t1 where
    wr: "write_file (fs st) ?bp (gzip_compress env (if p = ?bp then [] else data)) now = Inr fs2"
    and fl: "foldl (delete_backup p) ((clear_missing_cache_for_file p st)\<lparr>fs := fs2, vm := v\<rparr>, tr)
         (backups_to_delete env p ?mx ((clear_missing_cache_for_file p st)\<lparr>fs := fs2, vm := v\<rparr>)) = (s1, t1)"
    and km: "known_missing_backups st' = known_missing_backups s1"
    by blast
  let ?S = "(clear_missing_cache_for_file p st)\<lparr>fs := fs2, vm := v\<rparr>"
  from write_file_map_of [OF wr] obtain fnew where
    fnew: "map_of fs2 = (map_of (fs st))(?bp \<mapsto> fnew)" by blast
  from k km have k1: "get_cache_key p h' \<in> known_missing_backups s1" by simp
  have nk: "get_cache_key p h' \<notin> known_missing_backups ?S" by simp
  from foldl_delete_cache_source [OF fl k1] nk
  obtain b where b: "b \<in> set (backups_to_delete env p ?mx ?S)"
    and kb: "get_cache_key p h' = get_cache_key p (b_hash b)"
    by blast
  from backups_to_delete_subset b have bL: "b \<in> set (get_all_backup_files env p ?S)" by (rule subsetD)
  then obtain n f where n: "b_path b = (?vd, n)" "endswith n ''.gz''" "b_hash b = fst (splitext n)"
    and f: "map_of fs2 (?vd, n) = Some f"
    by (auto simp: get_all_backup_files_set)
  from kb have "fst (splitext n) = h'" using n(3) by simp
  then have "n = h' @ ''.gz''" using splitext_gz_hash [OF hex n(2)] by simp
  with f have "map_of fs2 (get_backup_path env p h') = Some f" by (simp add: get_backup_path_def)
  then show ?thesis unfolding fnew by (cases "h' = h") simp_all
qed

lemma cleanup_bak_loop_only_removes:
  "map_of (fs (cleanup_bak_loop d now ns st)) q = Some f \<Longrightarrow> map_of (fs st) q = Some f"
proof (induction ns arbitrary: st)
  case Nil
  then show ?case by simp
next
  case (Cons x ns)
  show ?case
  proof (cases "endswith x ''.bak''")
    case False
    then show ?thesis using Cons by simp
  next
    case bak: True
    show ?thesis
    proof (cases "map_of (fs st) (d, x)")
      case None
      then show ?thesis using bak Cons.prems by simp
    next
      case (Some g)
      show ?thesis
      proof (cases "ctime g < now - 86400 \<and> \<not> locked g")
        case True
        then have e: "cleanup_bak_loop d now (x # ns) st
                   = cleanup_bak_loop d now ns (st\<lparr>fs := AList.delete (d, x) (fs st)\<rparr>)"
          using Some bak by (simp add: remove_file_def)
        from Cons.prems [unfolded e] have "map_of (fs (st\<lparr>fs := AList.delete (d, x) (fs st)\<rparr>)) q = Some f"
          by (rule Cons.IH)
        then show ?thesis by (simp add: delete_conv' split: if_splits)
      next
        case False
        show ?thesis
        proof (cases "ctime g < now - 86400")
          case True
          with False have "locked g" by simp
          then have "cleanup_bak_loop d now (x # ns) st = bm_log_error ''Failed to cleanup old .bak files'' st"
            using Some bak True by (simp add: remove_file_def)
          with Cons.prems show ?thesis by simp
        next
          case False
          then have "cleanup_bak_loop d now (x # ns) st = cleanup_bak_loop d now ns st"
            using Some bak by simp
          with Cons.prems show ?thesis by (simp add: Cons.IH)
        qed
      qed
    qed
  qed
qed

lemma cleanup_old_bak_files_only_removes:
  "map_of (fs (cleanup_old_bak_files env now st)) q = Some f \<Longrightarrow> map_of (fs st) q = Some f"
  unfolding cleanup_old_bak_files_def Let_def by (rule cleanup_bak_loop_only_removes)

lemma clean_old_backups_only_removes:
  assumes c: "clean_old_backups env p mx tr now st = (r, st')" and q: "map_of (fs st') q = Some f"
  shows "map_of (fs st) q = Some f"
proof (cases "get_all_backup_files env p st = []")
  case True
  then have "st' = st" using c by (simp add: clean_old_backups_def)
  with q show ?thesis by simp
next
  case ne: False
  show ?thesis
  proof (cases "int (length (get_all_backup_files env p st)) > mx")
    case False
    then have "st' = cleanup_old_bak_files env now st"
      using c ne by (simp add: clean_old_backups_def)
    with q show ?thesis by (auto dest: cleanup_old_bak_files_only_removes)
  next
    case True
    obtain s1 t1 where acc: "foldl (delete_backup p) (st, tr) (py_slice_from (get_all_backup_files env p st) mx) = (s1, t1)"
      by (cases "foldl (delete_backup p) (st, tr) (py_slice_from (get_all_backup_files env p st) mx)")
    have "map_of (fs s1) q = Some f"
    proof (cases "has_version_manager env \<and> map_of t1 (path_str p) \<noteq> None")
      case False
      then have "st' = cleanup_old_bak_files env now s1"
        using c ne True acc by (auto simp: clean_old_backups_def Let_def)
      with q show ?thesis by (auto dest: cleanup_old_bak_files_only_removes)
    next
      case save: True
      obtain r' v where sv: "save_tracked_files (vm_environment env) t1 (vm s1) = (r', v)"
        by (cases "save_tracked_files (vm_environment env) t1 (vm s1)")
      show ?thesis
      proof (cases r')
        case (Inl e)
        then have "st' = bm_log_error ''Failed to clean old backups'' (s1\<lparr>vm := v\<rparr>)"
          using c ne True acc save sv by (auto simp: clean_old_backups_def Let_def)
        with q show ?thesis by simp
      next
        case (Inr u)
        then have "st' = cleanup_old_bak_files env now (s1\<lparr>vm := v\<rparr>)"
          using c ne True acc save sv by (auto simp: clean_old_backups_def Let_def)
        with q have "map_of (fs (s1\<lparr>vm := v\<rparr>)) q = Some f"
          by (auto dest: cleanup_old_bak_files_only_removes)
        then show ?thesis by simp
      qed
    qed
    then show ?thesis by (rule foldl_delete_only_removes [OF acc])
  qed
qed

text \<open>\<^verbatim>\<open>create_backup\<close>, whatever its outcome, adds no file but the blob it writes.\<close>

lemma create_backup_only_adds:
  assumes c: "create_backup env p h settings now st = (r, st')" and q: "map_of (fs st') q = Some f"
  shows "q = get_backup_path env p h \<or> map_of (fs st) q = Some f"
proof -
  let ?bp = "get_backup_path env p h"
  let ?st1 = "clear_missing_cache_for_file p st"
  let ?mx = "case settings of None \<Rightarrow> 5 | Some m \<Rightarrow> m"
  show ?thesis
  proof (cases "read_file (fs st) p")
    case (Inl e)
    then have "fs st' = fs st" using c by (auto simp: create_backup_def Let_def)
    with q show ?thesis by simp
  next
    case (Inr data)
    let ?z = "gzip_compress env (if p = ?bp then [] else data)"
    show ?thesis
    proof (cases "write_file (fs st) ?bp ?z now")
      case (Inl e)
      then have "fs st' = fs st" using c Inr by (auto simp: create_backup_def Let_def)
      with q show ?thesis by simp
    next
      case wr: (Inr fs2)
      from write_file_map_of [OF wr] obtain fnew where
        fnew: "map_of fs2 = (map_of (fs st))(?bp \<mapsto> fnew)" by blast
      let ?ld = "if has_version_manager env
             then load_tracked_files (vm_environment env) (vm (?st1\<lparr>fs := fs2\<rparr>))
             else (Inr [], vm (?st1\<lparr>fs := fs2\<rparr>))"
      obtain lr v where ld: "?ld = (lr, v)" by (cases ?ld)
      have "map_of fs2 q = Some f"
      proof (cases lr)
        case (Inl e)
        then have "fs st' = fs2" using c Inr wr ld by (auto simp: create_backup_def Let_def)
        with q show ?thesis by simp
      next
        case tr: (Inr tr)
        let ?st2 = "?st1\<lparr>fs := fs2, vm := v\<rparr>"
        obtain cr st3 where cl: "clean_old_backups env p ?mx tr now ?st2 = (cr, st3)"
          by (cases "clean_old_backups env p ?mx tr now ?st2")
        have "fs st' = fs st3"
          using c Inr wr ld tr cl by (cases cr) (auto simp: create_backup_def Let_def)
        with q have "map_of (fs st3) q = Some f" by simp
        from clean_old_backups_only_removes [OF cl this] show ?thesis by simp
      qed
      then show ?thesis unfolding fnew by (cases "q = ?bp") simp_all
    qed
  qed
qed

text \<open>An older blob survives a successful \<^verbatim>\<open>create_backup\<close> when, the new blob
  included, fewer than \<open>max_backups\<close> other entries of the directory are at least as new.\<close>

lemma create_backup_keeps_old:
  assumes ok: "create_backup env p h settings now st = (Inr bp, st')"
    and fin: "finite E" and cE: "int (card E) < (case settings of None \<Rightarrow> 5 | Some m \<Rightarrow> m)"
    and m: "m \<noteq> h @ ''.gz''" and hE: "h @ ''.gz'' \<in> E"
    and g: "map_of (fs st) (version_dir env p, m) = Some g"
    and older: "\<forall>n f. map_of (fs st) (version_dir env p, n) = Some f \<longrightarrow> n \<noteq> m \<longrightarrow> n \<notin> E
                  \<longrightarrow> mtime f < mtime g"
  shows "map_of (fs st') (version_dir env p, m) = Some g"
proof -
  let ?mx = "case settings of None \<Rightarrow> 5 | Some m \<Rightarrow> m"
  let ?vd = "version_dir env p"
  let ?bp = "get_backup_path env p h"
  from ok obtain data fs2 where rd: "read_file (fs st) p = Inr data"
    and wr: "write_file (fs st) ?bp (gzip_compress env (if p = ?bp then [] else data)) now = Inr fs2"
    by (rule create_backup_written)
  from write_file_map_of [OF wr] obtain fnew where
    fnew: "map_of fs2 = (map_of (fs st))(?bp \<mapsto> fnew)" by blast
  have bp: "?bp = (?vd, h @ ''.gz'')" by (simp add: get_backup_path_def)
  let ?S = "st\<lparr>fs := fs2\<rparr>"
  have g2: "map_of (fs ?S) (?vd, m) = Some g" using fnew g m bp by simp
  have o: "\<forall>n f. map_of (fs ?S) (?vd, n) = Some f \<longrightarrow> n \<noteq> m \<longrightarrow> n \<notin> E \<longrightarrow> mtime f < mtime g"
  proof (intro allI impI)
    fix n f assume a: "map_of (fs ?S) (?vd, n) = Some f" and n: "n \<noteq> m" "n \<notin> E"
    from n(2) hE have "n \<noteq> h @ ''.gz''" by auto
    with a have "map_of (fs st) (?vd, n) = Some f" using fnew bp by simp
    with older n show "mtime f < mtime g" by blast
  qed
  have mx0: "0 \<le> ?mx" using cE by linarith
  have "(?vd, m) \<notin> b_path ` set (backups_to_delete env p ?mx ?S)"
    by (rule not_deleted_if_few_newer [OF mx0 fin cE g2 o])
  from create_backup_facts(1) [OF ok rd wr refl this]
  show ?thesis using g2 by simp
qed

text \<open>With a limit of two, the third-newest blob is deleted and enters the negative
  cache.\<close>

lemma create_backup_evicts_third:
  assumes ok: "create_backup env p h (Some 2) now st = (Inr bp, st')"
    and names: "m1 \<noteq> m2" "m1 \<noteq> h @ ''.gz''" "m2 \<noteq> h @ ''.gz''"
    and gz: "endswith m1 ''.gz''" "endswith m2 ''.gz''"
    and g1: "map_of (fs st) (version_dir env p, m1) = Some g1" "\<not> locked g1"
    and g2: "map_of (fs st) (version_dir env p, m2) = Some g2"
    and older: "\<forall>n f. map_of (fs st) (version_dir env p, n) = Some f \<longrightarrow> n \<noteq> m2 \<longrightarrow> n \<noteq> h @ ''.gz''
                  \<longrightarrow> mtime f < mtime g2"
    and now: "mtime g2 < now"
  shows "map_of (fs st') (version_dir env p, m1) = None
       \<and> get_cache_key p (fst (splitext m1)) \<in> known_missing_backups st'"
proof -
  let ?vd = "version_dir env p"
  let ?bp = "get_backup_path env p h"
  let ?n3 = "h @ ''.gz''"
  from ok obtain data fs2 where rd: "read_file (fs st) p = Inr data"
    and wr: "write_file (fs st) ?bp (gzip_compress env (if p = ?bp then [] else data)) now = Inr fs2"
    by (rule create_backup_written)
  from write_file_map_of [OF wr] obtain fnew where
    fnew: "map_of fs2 = (map_of (fs st))(?bp \<mapsto> fnew)" "mtime fnew = now"
    by blast
  have bp: "?bp = (?vd, ?n3)" by (simp add: get_backup_path_def)
  let ?S = "st\<lparr>fs := fs2\<rparr>"
  let ?L = "get_all_backup_files env p ?S"
  let ?D = "backups_to_delete env p 2 ?S"
  have D: "?D = drop 2 ?L" using backups_to_delete_nonneg [of 2 env p ?S] by simp
  have f3: "map_of (fs ?S) (?vd, ?n3) = Some fnew" using fnew(1) bp by simp
  have f2: "map_of (fs ?S) (?vd, m2) = Some g2" using fnew(1) bp g2 names by simp
  have f1: "map_of (fs ?S) (?vd, m1) = Some g1" using fnew(1) bp g1 names by simp
  have older_st: "\<And>n f. map_of (fs ?S) (?vd, n) = Some f \<Longrightarrow> n \<noteq> m2 \<Longrightarrow> n \<noteq> ?n3 \<Longrightarrow> mtime f < mtime g2"
  proof -
    fix n f assume a: "map_of (fs ?S) (?vd, n) = Some f" and n: "n \<noteq> m2" "n \<noteq> ?n3"
    then have "map_of (fs st) (?vd, n) = Some f" using fnew(1) bp by simp
    with older n show "mtime f < mtime g2" by blast
  qed
  have o3: "\<forall>n f. map_of (fs ?S) (?vd, n) = Some f \<longrightarrow> n \<noteq> ?n3 \<longrightarrow> n \<notin> {} \<longrightarrow> mtime f < mtime fnew"
  proof (intro allI impI)
    fix n f assume a: "map_of (fs ?S) (?vd, n) = Some f" and n: "n \<noteq> ?n3"
    show "mtime f < mtime fnew"
    proof (cases "n = m2")
      case True
      with a f2 have "f = g2" by simp
      with now fnew(2) show ?thesis by simp
    next
      case False
      from older_st [OF a False n] now fnew(2) show ?thesis by simp
    qed
  qed
  have o2: "\<forall>n f. map_of (fs ?S) (?vd, n) = Some f \<longrightarrow> n \<noteq> m2 \<longrightarrow> n \<notin> {?n3} \<longrightarrow> mtime f < mtime g2"
  proof (intro allI impI)
    fix n f assume a: "map_of (fs ?S) (?vd, n) = Some f" and n: "n \<noteq> m2" "n \<notin> {?n3}"
    from n(2) have "n \<noteq> ?n3" by simp
    from older_st [OF a n(1) this] show "mtime f < mtime g2" .
  qed
  have k3: "(?vd, ?n3) \<notin> b_path ` set ?D"
    by (rule not_deleted_if_few_newer [OF _ _ _ f3 o3]) simp_all
  have k2: "(?vd, m2) \<notin> b_path ` set ?D"
    by (rule not_deleted_if_few_newer [OF _ _ _ f2 o2]) simp_all
  let ?e3 = "\<lparr>b_path = (?vd, ?n3), b_hash = fst (splitext ?n3), b_mtime = mtime fnew\<rparr>"
  let ?e2 = "\<lparr>b_path = (?vd, m2), b_hash = fst (splitext m2), b_mtime = mtime g2\<rparr>"
  let ?e1 = "\<lparr>b_path = (?vd, m1), b_hash = fst (splitext m1), b_mtime = mtime g1\<rparr>"
  have e3: "?e3 \<in> set ?L" using f3 by (auto simp: get_all_backup_files_set)
  have e2: "?e2 \<in> set ?L" using f2 gz(2) by (auto simp: get_all_backup_files_set)
  have e1: "?e1 \<in> set ?L" using f1 gz(1) by (auto simp: get_all_backup_files_set)
  have A: "{?e3, ?e2} \<subseteq> set ?L" using e3 e2 by simp
  have nA: "?e1 \<notin> {?e3, ?e2}" using names by simp
  have dis: "{?e3, ?e2} \<inter> set (drop 2 ?L) = {}"
  proof -
    have "?e3 \<notin> set ?D"
    proof
      assume "?e3 \<in> set ?D"
      then have "b_path ?e3 \<in> b_path ` set ?D" by (rule imageI)
      with k3 show False by simp
    qed
    moreover have "?e2 \<notin> set ?D"
    proof
      assume "?e2 \<in> set ?D"
      then have "b_path ?e2 \<in> b_path ` set ?D" by (rule imageI)
      with k2 show False by simp
    qed
    ultimately show ?thesis unfolding D by simp
  qed
  have cA: "2 \<le> card {?e3, ?e2}" using names by simp
  have "?e1 \<in> set (drop 2 ?L)"
    by (rule beyond_if_enough_kept [OF get_all_backup_files_distinct e1 A nA dis cA])
  then have inD: "?e1 \<in> set ?D" unfolding D .
  have pres: "map_of fs2 (b_path ?e1) = Some g1" using f1 by simp
  have Deq: "?D = backups_to_delete env p (case Some 2 of None \<Rightarrow> 5 | Some m \<Rightarrow> m) ?S" by simp
  from create_backup_facts(3) [OF ok rd wr Deq inD pres g1(2)]
  show ?thesis by simp
qed

lemma create_backup_others_old:
  assumes c: "create_backup env p h settings now st = (r, st')"
    and f: "map_of (fs st') (version_dir env p, n) = Some f" and n: "n \<noteq> h @ ''.gz''"
  shows "map_of (fs st) (version_dir env p, n) = Some f"
  using create_backup_only_adds [OF c f] n by (simp add: get_backup_path_def)

lemma three_commits:
  assumes hex: "is_hex_digest H1" "is_hex_digest H2" "is_hex_digest H3"
    and dist: "H1 \<noteq> H2" "H1 \<noteq> H3" "H2 \<noteq> H3"
    and times: "t1 < t2" "t2 < t3"
    and old: "blobs_older env p t1 st0"
    and c1: "create_backup env p H1 (Some 2) t1 st0 = (Inr b1, st1)"
    and e1: "same_blobs env p st1 st1'"
    and c2: "create_backup env p H2 (Some 2) t2 st1' = (Inr b2, st2)"
    and e2: "same_blobs env p st2 st2'"
    and c3: "create_backup env p H3 (Some 2) t3 st2' = (Inr b3, st3)"
  shows "check_backup_exists env p H1 st3 = (False, st3)
       \<and> check_backup_exists env p H2 st3 = (True, st3)
       \<and> check_backup_exists env p H3 st3 = (True, st3)"
proof -
  let ?vd = "version_dir env p"
  let ?n1 = "H1 @ ''.gz''" and ?n2 = "H2 @ ''.gz''" and ?n3 = "H3 @ ''.gz''"
  have mx1: "1 \<le> (case Some (2::int) of None \<Rightarrow> 5 | Some m \<Rightarrow> m)" by simp
  have bpn: "\<And>h. get_backup_path env p h = (?vd, h @ ''.gz'')" by (simp add: get_backup_path_def)
  txt \<open>first commit\<close>
  have o0: "\<And>n f. map_of (fs st0) (?vd, n) = Some f \<Longrightarrow> mtime f < t1"
    using blobs_older_map_of [OF old] by blast
  have older1: "\<forall>n f. map_of (fs st0) (?vd, n) = Some f \<longrightarrow> n \<noteq> ?n1 \<longrightarrow> mtime f < t1"
    using o0 by blast
  from create_backup_keeps_new [OF c1 mx1 older1] obtain f1 where
    f1: "map_of (fs st1) (?vd, ?n1) = Some f1" "mtime f1 = t1" "\<not> locked f1"
    unfolding bpn by blast
  have o1: "\<And>n f. map_of (fs st1) (?vd, n) = Some f \<Longrightarrow> n \<noteq> ?n1 \<Longrightarrow> mtime f < t1"
    using create_backup_others_old [OF c1] o0 by blast
  txt \<open>second commit\<close>
  note s1 = same_blobs_map_of [OF e1]
  have f1': "map_of (fs st1') (?vd, ?n1) = Some f1" using f1(1) s1 by simp
  have o1': "\<And>n f. map_of (fs st1') (?vd, n) = Some f \<Longrightarrow> n \<noteq> ?n1 \<Longrightarrow> mtime f < t1"
    using o1 s1 by simp
  have older2: "\<forall>n f. map_of (fs st1') (?vd, n) = Some f \<longrightarrow> n \<noteq> ?n2 \<longrightarrow> mtime f < t2"
  proof (intro allI impI)
    fix n f assume a: "map_of (fs st1') (?vd, n) = Some f"
    show "mtime f < t2"
    proof (cases "n = ?n1")
      case True
      with a f1' f1(2) times show ?thesis by simp
    next
      case False
      from o1' [OF a False] times show ?thesis by simp
    qed
  qed
  from create_backup_keeps_new [OF c2 mx1 older2] obtain f2 where
    f2: "map_of (fs st2) (?vd, ?n2) = Some f2" "mtime f2 = t2" "\<not> locked f2"
    unfolding bpn by blast
  have keep1: "map_of (fs st2) (?vd, ?n1) = Some f1"
  proof (rule create_backup_keeps_old [OF c2 _ _ _ _ f1', of "{?n2}"])
    show "finite {?n2}" by simp
    show "int (card {?n2}) < (case Some 2 of None \<Rightarrow> 5 | Some m \<Rightarrow> m)" by simp
    show "?n1 \<noteq> ?n2" using dist by simp
    show "?n2 \<in> {?n2}" by simp
    show "\<forall>n f. map_of (fs st1') (?vd, n) = Some f \<longrightarrow> n \<noteq> ?n1 \<longrightarrow> n \<notin> {?n2} \<longrightarrow> mtime f < mtime f1"
      using o1' f1(2) by blast
  qed
  have o2: "\<And>n f. map_of (fs st2) (?vd, n) = Some f \<Longrightarrow> n \<noteq> ?n2 \<Longrightarrow> n \<noteq> ?n1 \<Longrightarrow> mtime f < t1"
    using create_backup_others_old [OF c2] o1' by blast
  txt \<open>third commit\<close>
  note s2 = same_blobs_map_of [OF e2]
  have f2': "map_of (fs st2') (?vd, ?n2) = Some f2" using f2(1) s2 by simp
  have f1'': "map_of (fs st2') (?vd, ?n1) = Some f1" using keep1 s2 by simp
  have o2': "\<And>n f. map_of (fs st2') (?vd, n) = Some f \<Longrightarrow> n \<noteq> ?n2 \<Longrightarrow> n \<noteq> ?n1 \<Longrightarrow> mtime f < t1"
    using o2 s2 by simp
  have lt2: "\<And>n f. map_of (fs st2') (?vd, n) = Some f \<Longrightarrow> n \<noteq> ?n2 \<Longrightarrow> mtime f < t2"
  proof -
    fix n f assume a: "map_of (fs st2') (?vd, n) = Some f" and n: "n \<noteq> ?n2"
    show "mtime f < t2"
    proof (cases "n = ?n1")
      case True
      with a f1'' f1(2) times show ?thesis by simp
    next
      case False
      from o2' [OF a n False] times show ?thesis by simp
    qed
  qed
  have older3: "\<forall>n f. map_of (fs st2') (?vd, n) = Some f \<longrightarrow> n \<noteq> ?n3 \<longrightarrow> mtime f < t3"
  proof (intro allI impI)
    fix n f assume a: "map_of (fs st2') (?vd, n) = Some f"
    show "mtime f < t3"
    proof (cases "n = ?n2")
      case True
      with a f2' f2(2) times show ?thesis by simp
    next
      case False
      from lt2 [OF a False] times show ?thesis by simp
    qed
  qed
  from create_backup_keeps_new [OF c3 mx1 older3] obtain f3 where
    f3: "map_of (fs st3) (get_backup_path env p H3) = Some f3"
    by blast
  have nk3: "get_cache_key p H3 \<notin> known_missing_backups st3"
    by (rule create_backup_new_not_cached [OF c3 mx1 older3 hex(3)])
  have keep2: "map_of (fs st3) (?vd, ?n2) = Some f2"
  proof (rule create_backup_keeps_old [OF c3 _ _ _ _ f2', of "{?n3}"])
    show "finite {?n3}" by simp
    show "int (card {?n3}) < (case Some 2 of None \<Rightarrow> 5 | Some m \<Rightarrow> m)" by simp
    show "?n2 \<noteq> ?n3" using dist by simp
    show "?n3 \<in> {?n3}" by simp
    show "\<forall>n f. map_of (fs st2') (?vd, n) = Some f \<longrightarrow> n \<noteq> ?n2 \<longrightarrow> n \<notin> {?n3} \<longrightarrow> mtime f < mtime f2"
      using lt2 f2(2) by blast
  qed
  have nk2: "get_cache_key p H2 \<notin> known_missing_backups st3"
  proof
    assume "get_cache_key p H2 \<in> known_missing_backups st3"
    from create_backup_cache_accurate [OF c3 hex(2) this] keep2 show False by (simp add: bpn)
  qed
  have ev: "map_of (fs st3) (?vd, ?n1) = None
       \<and> get_cache_key p (fst (splitext ?n1)) \<in> known_missing_backups st3"
  proof (rule create_backup_evicts_third [OF c3 _ _ _ _ _ f1'' f1(3) f2'])
    show "?n1 \<noteq> ?n2" "?n1 \<noteq> ?n3" "?n2 \<noteq> ?n3" using dist by simp_all
    show "endswith ?n1 ''.gz''" "endswith ?n2 ''.gz''" by simp_all
    show "\<forall>n f. map_of (fs st2') (?vd, n) = Some f \<longrightarrow> n \<noteq> ?n2 \<longrightarrow> n \<noteq> ?n3 \<longrightarrow> mtime f < mtime f2"
      using lt2 f2(2) by blast
    show "mtime f2 < t3" using f2(2) times by simp
  qed
  then have k1: "get_cache_key p H1 \<in> known_missing_backups st3" using hex(1) by simp
  have r1: "check_backup_exists env p H1 st3 = (False, st3)" by (rule check_cached [OF k1])
  have r2: "check_backup_exists env p H2 st3 = (True, st3)"
    by (rule check_primary [OF nk2]) (use keep2 bpn in simp)
  have r3: "check_backup_exists env p H3 st3 = (True, st3)"
    by (rule check_primary [OF nk3 f3])
  from r1 r2 r3 show ?thesis by simp
qed

subsection \<open>Records of deleted blobs in the index, and the number of blobs left\<close>

lemma lookup_del_version_same [simp]:
  "lookup_version (del_version k h t) k h = None"
proof (cases "map_of t k")
  case None
  then show ?thesis by (simp add: lookup_version_def del_version_def)
next
  case (Some o1)
  show ?thesis
  proof (cases o1)
    case None
    with Some show ?thesis by (simp add: lookup_version_def del_version_def)
  next
    case (Some vs)
    with \<open>map_of t k = Some o1\<close> show ?thesis
      by (cases "map_of vs h")
         (simp_all add: lookup_version_def del_version_def map_of_map_entry delete_conv')
  qed
qed

lemma lookup_del_version_None:
  assumes "lookup_version t k h = None"
  shows "lookup_version (del_version k h' t) k h = None"
proof (cases "map_of t k")
  case None
  then show ?thesis by (simp add: lookup_version_def del_version_def)
next
  case (Some o1)
  show ?thesis
  proof (cases o1)
    case None
    with Some show ?thesis by (simp add: lookup_version_def del_version_def)
  next
    case (Some vs)
    with \<open>map_of t k = Some o1\<close> assms show ?thesis
      by (cases "map_of vs h'")
         (simp_all add: lookup_version_def del_version_def map_of_map_entry delete_conv')
  qed
qed

lemma delete_backup_index_None:
  assumes "delete_backup p (st, tr) c = (s1, t1)" and "lookup_version tr (path_str p) h = None"
  shows "lookup_version t1 (path_str p) h = None"
  using assms
  by (auto simp: delete_backup_cases lookup_del_version_None split: option.splits if_splits)

lemma foldl_delete_index_None:
  "foldl (delete_backup p) (st, tr) dels = (st', tr') \<Longrightarrow> lookup_version tr (path_str p) h = None
   \<Longrightarrow> lookup_version tr' (path_str p) h = None"
proof (induction dels arbitrary: st tr)
  case Nil
  then show ?case by simp
next
  case (Cons c dels)
  obtain s1 t1 where s1: "delete_backup p (st, tr) c = (s1, t1)" by (cases "delete_backup p (st, tr) c")
  from Cons.prems(1) have f: "foldl (delete_backup p) (s1, t1) dels = (st', tr')" by (simp add: s1)
  from delete_backup_index_None [OF s1 Cons.prems(2)]
  show ?case by (rule Cons.IH [OF f])
qed

lemma delete_backup_index:
  assumes "delete_backup p (st, tr) c = (s1, t1)" and "map_of (fs st) (b_path c) = Some f" and "\<not> locked f"
  shows "lookup_version t1 (path_str p) (b_hash c) = None"
  using assms by (auto simp: delete_backup_cases)

lemma foldl_delete_backup_index:
  assumes "foldl (delete_backup p) (st, tr) dels = (st', tr')"
    and "b \<in> set dels" and "map_of (fs st) (b_path b) = Some f" and "\<not> locked f"
    and "\<forall>b'\<in>set dels. b_path b' = b_path b \<longrightarrow> b_hash b' = b_hash b"
  shows "lookup_version tr' (path_str p) (b_hash b) = None"
  using assms
proof (induction dels arbitrary: st tr)
  case Nil
  then show ?case by simp
next
  case (Cons c dels)
  obtain s1 t1 where s1: "delete_backup p (st, tr) c = (s1, t1)" by (cases "delete_backup p (st, tr) c")
  from Cons.prems(1) have f: "foldl (delete_backup p) (s1, t1) dels = (st', tr')" by (simp add: s1)
  show ?case
  proof (cases "b_path c = b_path b")
    case True
    then have hc: "b_hash c = b_hash b" using Cons.prems(5) by simp
    have pc: "map_of (fs st) (b_path c) = Some f" using Cons.prems(3) True by simp
    from delete_backup_index [OF s1 pc Cons.prems(4)]
    have "lookup_version t1 (path_str p) (b_hash b) = None" using hc by simp
    then show ?thesis by (rule foldl_delete_index_None [OF f])
  next
    case False
    then have bin: "b \<in> set dels" using Cons.prems(2) by auto
    have pres: "map_of (fs s1) (b_path b) = Some f"
      using delete_backup_other [OF s1, of "b_path b"] False Cons.prems(3) by simp
    have hs: "\<forall>b'\<in>set dels. b_path b' = b_path b \<longrightarrow> b_hash b' = b_hash b"
      using Cons.prems(5) by simp
    show ?thesis
      by (rule Cons.IH [OF f bin pres Cons.prems(4) hs])
  qed
qed

lemma clean_old_backups_index:
  assumes ok: "clean_old_backups env p mx tr now st = (Inr tr', st')"
  shows "tr' = snd (foldl (delete_backup p) (st, tr) (backups_to_delete env p mx st))"
proof (cases "get_all_backup_files env p st = []")
  case True
  then show ?thesis using ok by (simp add: clean_old_backups_def backups_to_delete_empty)
next
  case ne: False
  show ?thesis
  proof (cases "int (length (get_all_backup_files env p st)) > mx")
    case False
    then show ?thesis using ok ne by (simp add: clean_old_backups_def backups_to_delete_def)
  next
    case True
    then have del: "backups_to_delete env p mx st = py_slice_from (get_all_backup_files env p st) mx"
      by (simp add: backups_to_delete_def)
    obtain s1 t1 where acc: "foldl (delete_backup p) (st, tr) (py_slice_from (get_all_backup_files env p st) mx) = (s1, t1)"
      by (cases "foldl (delete_backup p) (st, tr) (py_slice_from (get_all_backup_files env p st) mx)")
    have "tr' = t1"
    proof (cases "has_version_manager env \<and> map_of t1 (path_str p) \<noteq> None")
      case False
      then show ?thesis using ok ne True acc by (auto simp: clean_old_backups_def Let_def)
    next
      case save: True
      obtain r v where sv: "save_tracked_files (vm_environment env) t1 (vm s1) = (r, v)"
        by (cases "save_tracked_files (vm_environment env) t1 (vm s1)")
      show ?thesis
        using ok ne True acc save sv by (cases r) (auto simp: clean_old_backups_def Let_def)
    qed
    then show ?thesis unfolding del acc by simp
  qed
qed

lemma clean_old_backups_removed:
  assumes ok: "clean_old_backups env p mx tr now st = (Inr tr', st')"
    and b: "b \<in> set (backups_to_delete env p mx st)"
    and f: "map_of (fs st) (b_path b) = Some f" "\<not> locked f"
  shows "map_of (fs st') (b_path b) = None \<and> lookup_version tr' (path_str p) (b_hash b) = None"
proof -
  let ?D = "backups_to_delete env p mx st"
  from clean_old_backups_effect [OF ok] obtain s1 t1 where
    fl: "foldl (delete_backup p) (st, tr) ?D = (s1, t1)"
    and same: "\<And>n. map_of (fs st') (version_dir env p, n) = map_of (fs s1) (version_dir env p, n)"
    by blast
  have t1: "tr' = t1" using clean_old_backups_index [OF ok] fl by simp
  have bL: "b \<in> set (get_all_backup_files env p st)" using backups_to_delete_subset b by (rule subsetD)
  have hs: "\<forall>b'\<in>set ?D. b_path b' = b_path b \<longrightarrow> b_hash b' = b_hash b"
  proof (intro ballI impI)
    fix b' assume b': "b' \<in> set ?D" and e: "b_path b' = b_path b"
    from backups_to_delete_subset b' have "b' \<in> set (get_all_backup_files env p st)" by (rule subsetD)
    from get_all_backup_files_hash [OF this] get_all_backup_files_hash [OF bL] e
    show "b_hash b' = b_hash b" by simp
  qed
  have pb: "b_path b = (version_dir env p, snd (b_path b))"
    using get_all_backup_files_path [OF bL] by (cases "b_path b") simp
  from foldl_delete_backup_removed [OF fl b f hs] have "map_of (fs s1) (b_path b) = None" by (rule conjunct1)
  then have "map_of (fs s1) (version_dir env p, snd (b_path b)) = None" using pb by simp
  then have "map_of (fs st') (version_dir env p, snd (b_path b)) = None" using same by simp
  then have r1: "map_of (fs st') (b_path b) = None" using pb by simp
  have r2: "lookup_version tr' (path_str p) (b_hash b) = None"
    unfolding t1 by (rule foldl_delete_backup_index [OF fl b f hs])
  from r1 r2 show ?thesis by (rule conjI)
qed

lemma create_backup_bound:
  assumes ok: "create_backup env p h settings now st = (Inr bp, st')"
    and mx: "0 \<le> (case settings of None \<Rightarrow> 5 | Some m \<Rightarrow> m)"
    and unl: "\<forall>n f. map_of (fs st) (version_dir env p, n) = Some f \<longrightarrow> \<not> locked f"
  shows "int (length (get_all_backup_files env p st')) \<le> (case settings of None \<Rightarrow> 5 | Some m \<Rightarrow> m)"
proof -
  let ?mx = "case settings of None \<Rightarrow> 5 | Some m \<Rightarrow> m"
  let ?vd = "version_dir env p"
  from create_backup_written [OF ok] obtain data fs2 where
    rd: "read_file (fs st) p = Inr data"
    and wr: "write_file (fs st) (get_backup_path env p h)
           (gzip_compress env (if p = get_backup_path env p h then [] else data)) now = Inr fs2"
    by blast
  let ?S = "st\<lparr>fs := fs2\<rparr>"
  let ?L = "get_all_backup_files env p ?S"
  let ?D = "backups_to_delete env p ?mx ?S"
  have D: "?D = drop (nat ?mx) ?L" by (rule backups_to_delete_nonneg [OF mx])
  from write_file_map_of [OF wr] obtain g where
    g: "map_of fs2 = (map_of (fs st))(get_backup_path env p h \<mapsto> g)" "\<not> locked g" by blast
  have sub: "set (get_all_backup_files env p st') \<subseteq> set (take (nat ?mx) ?L)"
  proof
    fix b assume b: "b \<in> set (get_all_backup_files env p st')"
    then obtain n f where n: "map_of (fs st') (?vd, n) = Some f" "endswith n ''.gz''"
      and bb: "b = \<lparr>b_path = (?vd, n), b_hash = fst (splitext n), b_mtime = mtime f\<rparr>"
      unfolding get_all_backup_files_set by blast
    have f2: "map_of fs2 (?vd, n) = Some f"
      by (rule create_backup_facts(2) [OF ok rd wr refl n(1)])
    then have bL: "b \<in> set ?L" unfolding get_all_backup_files_set using n(2) bb by auto
    have nl: "\<not> locked f"
    proof (cases "(?vd, n) = get_backup_path env p h")
      case True
      with f2 g show ?thesis by simp
    next
      case False
      with f2 g(1) have "map_of (fs st) (?vd, n) = Some f" by simp
      with unl show ?thesis by blast
    qed
    show "b \<in> set (take (nat ?mx) ?L)"
    proof (rule ccontr)
      assume "b \<notin> set (take (nat ?mx) ?L)"
      moreover have "set ?L = set (take (nat ?mx) ?L) \<union> set (drop (nat ?mx) ?L)"
        by (metis append_take_drop_id set_append)
      ultimately have "b \<in> set (drop (nat ?mx) ?L)" using bL by blast
      then have bD: "b \<in> set ?D" unfolding D .
      have pb: "map_of fs2 (b_path b) = Some f" using f2 bb by simp
      from create_backup_facts(3) [OF ok rd wr refl bD pb nl]
      have "map_of (fs st') (b_path b) = None" by (rule conjunct1)
      with n(1) bb show False by simp
    qed
  qed
  have "length (get_all_backup_files env p st') = card (set (get_all_backup_files env p st'))"
    by (simp add: distinct_card)
  also have "\<dots> \<le> card (set (take (nat ?mx) ?L))" by (rule card_mono [OF _ sub]) simp
  also have "\<dots> \<le> length (take (nat ?mx) ?L)" by (rule card_length)
  also have "\<dots> \<le> nat ?mx" by simp
  finally show ?thesis using mx by linarith
qed

lemma blobs_unlocked_map_of:
  assumes "blobs_unlocked env p st" "map_of (fs st) (version_dir env p, n) = Some f"
  shows "\<not> locked f"
proof -
  from assms(2) have "map_of (dir_entries (fs st) (version_dir env p)) (version_dir env p, n) = Some f"
    by (simp add: map_of_dir_entries)
  then have "((version_dir env p, n), f) \<in> set (dir_entries (fs st) (version_dir env p))"
    by (rule map_of_SomeD)
  with assms(1) show ?thesis unfolding blobs_unlocked_def list_all_iff by auto
qed

lemma same_blobs_refl [simp]: "same_blobs env p st st"
  by (simp add: same_blobs_def)

text \<open>
  C1. Retention is enforced by \<^verbatim>\<open>create_backup\<close> itself. The blobs of a path are listed
  by modification time, newest first. Every listed blob beyond the first \<open>max_backups\<close>
  that can be deleted is gone after \<^verbatim>\<open>_clean_old_backups\<close>, and the index handed to it has
  no record of its hash any more. After a successful \<^verbatim>\<open>create_backup\<close> at most
  \<open>max_backups\<close> blobs of the path are left, when none of them is held open. And with
  \<open>max_backups = 2\<close>, after three commits in a row with distinct hashes \<open>H1\<close>, \<open>H2\<close>, \<open>H3\<close> at
  increasing times, \<^verbatim>\<open>check_backup_exists\<close> is false for \<open>H1\<close> and true for \<open>H2\<close> and \<open>H3\<close>.
\<close>

theorem retention_enforced:
  "(\<forall>env p st. sorted_wrt (\<lambda>a b. b_mtime b \<le> b_mtime a) (get_all_backup_files env p st))
   \<and> (\<forall>env p mx tr now st tr' st' b f.
         clean_old_backups env p mx tr now st = (Inr tr', st') \<and> 0 \<le> mx
         \<and> b \<in> set (drop (nat mx) (get_all_backup_files env p st))
         \<and> map_of (fs st) (b_path b) = Some f \<and> \<not> locked f
         \<longrightarrow> \<not> path_exists (fs st') (b_path b)
             \<and> lookup_version tr' (path_str p) (b_hash b) = None)
   \<and> (\<forall>env p h settings now st bp st'.
         create_backup env p h settings now st = (Inr bp, st')
         \<and> 0 \<le> (case settings of None \<Rightarrow> 5 | Some m \<Rightarrow> m)
         \<and> blobs_unlocked env p st
         \<longrightarrow> int (length (get_all_backup_files env p st'))
               \<le> (case settings of None \<Rightarrow> 5 | Some m \<Rightarrow> m))
   \<and> (\<forall>env p H1 H2 H3 t1 t2 t3 st0 b1 st1 st1' b2 st2 st2' b3 st3.
         is_hex_digest H1 \<and> is_hex_digest H2 \<and> is_hex_digest H3
         \<and> H1 \<noteq> H2 \<and> H1 \<noteq> H3 \<and> H2 \<noteq> H3 \<and> t1 < t2 \<and> t2 < t3
         \<and> blobs_older env p t1 st0
         \<and> create_backup env p H1 (Some 2) t1 st0 = (Inr b1, st1)
         \<and> same_blobs env p st1 st1'
         \<and> create_backup env p H2 (Some 2) t2 st1' = (Inr b2, st2)
         \<and> same_blobs env p st2 st2'
         \<and> create_backup env p H3 (Some 2) t3 st2' = (Inr b3, st3)
         \<longrightarrow> check_backup_exists env p H1 st3 = (False, st3)
             \<and> check_backup_exists env p H2 st3 = (True, st3)
             \<and> check_backup_exists env p H3 st3 = (True, st3))"
proof (intro conjI allI impI)
  fix env p st
  show "sorted_wrt (\<lambda>a b. b_mtime b \<le> b_mtime a) (get_all_backup_files env p st)"
    unfolding get_all_backup_files_def Let_def by (rule py_sorted_reverse_sorted)
next
  fix env p mx tr now st tr' st' b f
  assume a: "clean_old_backups env p mx tr now st = (Inr tr', st') \<and> 0 \<le> mx
         \<and> b \<in> set (drop (nat mx) (get_all_backup_files env p st))
         \<and> map_of (fs st) (b_path b) = Some f \<and> \<not> locked f"
  then have ok: "clean_old_backups env p mx tr now st = (Inr tr', st')" and mx: "0 \<le> mx"
    and b: "b \<in> set (drop (nat mx) (get_all_backup_files env p st))"
    and f: "map_of (fs st) (b_path b) = Some f" "\<not> locked f" by simp_all
  from b have bD: "b \<in> set (backups_to_delete env p mx st)"
    unfolding backups_to_delete_nonneg [OF mx] .
  from clean_old_backups_removed [OF ok bD f]
  have r: "map_of (fs st') (b_path b) = None \<and> lookup_version tr' (path_str p) (b_hash b) = None" .
  from r show "\<not> path_exists (fs st') (b_path b)" by (simp add: path_exists_def)
  from r show "lookup_version tr' (path_str p) (b_hash b) = None" by (rule conjunct2)
next
  fix env p h settings now st bp st'
  assume a: "create_backup env p h settings now st = (Inr bp, st')
         \<and> 0 \<le> (case settings of None \<Rightarrow> 5 | Some m \<Rightarrow> m)
         \<and> blobs_unlocked env p st"
  then have ok: "create_backup env p h settings now st = (Inr bp, st')"
    and mx: "0 \<le> (case settings of None \<Rightarrow> 5 | Some m \<Rightarrow> m)"
    and un: "blobs_unlocked env p st" by simp_all
  have "\<forall>n f. map_of (fs st) (version_dir env p, n) = Some f \<longrightarrow> \<not> locked f"
    using blobs_unlocked_map_of [OF un] by blast
  with ok mx show "int (length (get_all_backup_files env p st'))
               \<le> (case settings of None \<Rightarrow> 5 | Some m \<Rightarrow> m)"
    by (rule create_backup_bound)
next
  fix env p H1 H2 H3 t1 t2 t3 st0 b1 st1 st1' b2 st2 st2' b3 st3
  assume a: "is_hex_digest H1 \<and> is_hex_digest H2 \<and> is_hex_digest H3
         \<and> H1 \<noteq> H2 \<and> H1 \<noteq> H3 \<and> H2 \<noteq> H3 \<and> t1 < t2 \<and> t2 < t3
         \<and> blobs_older env p t1 st0
         \<and> create_backup env p H1 (Some 2) t1 st0 = (Inr b1, st1)
         \<and> same_blobs env p st1 st1'
         \<and> create_backup env p H2 (Some 2) t2 st1' = (Inr b2, st2)
         \<and> same_blobs env p st2 st2'
         \<and> create_backup env p H3 (Some 2) t3 st2' = (Inr b3, st3)"
  then have r: "check_backup_exists env p H1 st3 = (False, st3)
       \<and> check_backup_exists env p H2 st3 = (True, st3)
       \<and> check_backup_exists env p H3 st3 = (True, st3)"
    by (elim conjE) (rule three_commits)
  from r show "check_backup_exists env p H1 st3 = (False, st3)" by (rule conjunct1)
  from r show "check_backup_exists env p H2 st3 = (True, st3)" by simp
  from r show "check_backup_exists env p H3 st3 = (True, st3)" by simp
qed

theorem retention_enforced_witness:
  "(is_hex_digest ''a1'' \<and> is_hex_digest ''b2'' \<and> is_hex_digest ''c3''
    \<and> blobs_older sample_env sample_path 1 sample_state
    \<and> fst (create_backup sample_env sample_path ''a1'' (Some 2) 1 sample_state)
        = Inr (get_backup_path sample_env sample_path ''a1'')
    \<and> fst (create_backup sample_env sample_path ''b2'' (Some 2) 2 sample_commit1)
        = Inr (get_backup_path sample_env sample_path ''b2'')
    \<and> fst (create_backup sample_env sample_path ''c3'' (Some 2) 3 sample_commit2)
        = Inr (get_backup_path sample_env sample_path ''c3'')
    \<and> blobs_unlocked sample_env sample_path sample_commit2
    \<and> fst (clean_old_backups sample_env sample_path 1 sample_tracked 3 sample_commit2)
        = Inr [(path_str sample_path,
                Some [(''b2'', sample_info ''2025-03-17 18:31:42''),
                      (''c3'', sample_info ''2025-03-17 18:31:43'')])]
    \<and> \<lparr>b_path = get_backup_path sample_env sample_path ''a1'', b_hash = ''a1'', b_mtime = 1\<rparr>
        \<in> set (drop (nat 1) (get_all_backup_files sample_env sample_path sample_commit2))
    \<and> map_of (fs sample_commit2) (get_backup_path sample_env sample_path ''a1'')
        = Some (sample_file (sample_gzip ''hello'') 1))
   \<and> check_backup_exists sample_env sample_path ''a1'' sample_commit3 = (False, sample_commit3)
   \<and> check_backup_exists sample_env sample_path ''b2'' sample_commit3 = (True, sample_commit3)
   \<and> check_backup_exists sample_env sample_path ''c3'' sample_commit3 = (True, sample_commit3)
   \<and> int (length (get_all_backup_files sample_env sample_path sample_commit3)) \<le> 2
   \<and> \<not> path_exists
        (fs (snd (clean_old_backups sample_env sample_path 1 sample_tracked 3 sample_commit2)))
        (get_backup_path sample_env sample_path ''a1'')
   \<and> lookup_version [(path_str sample_path,
                Some [(''b2'', sample_info ''2025-03-17 18:31:42''),
                      (''c3'', sample_info ''2025-03-17 18:31:43'')])]
        (path_str sample_path) ''a1'' = None"
proof -
  let ?tr = "[(path_str sample_path,
                Some [(''b2'', sample_info ''2025-03-17 18:31:42''),
                      (''c3'', sample_info ''2025-03-17 18:31:43'')])]"
  let ?b = "\<lparr>b_path = get_backup_path sample_env sample_path ''a1'', b_hash = ''a1'', b_mtime = 1\<rparr>"
  have h: "is_hex_digest ''a1'' \<and> is_hex_digest ''b2'' \<and> is_hex_digest ''c3''
    \<and> blobs_older sample_env sample_path 1 sample_state
    \<and> fst (create_backup sample_env sample_path ''a1'' (Some 2) 1 sample_state)
        = Inr (get_backup_path sample_env sample_path ''a1'')
    \<and> fst (create_backup sample_env sample_path ''b2'' (Some 2) 2 sample_commit1)
        = Inr (get_backup_path sample_env sample_path ''b2'')
    \<and> fst (create_backup sample_env sample_path ''c3'' (Some 2) 3 sample_commit2)
        = Inr (get_backup_path sample_env sample_path ''c3'')
    \<and> blobs_unlocked sample_env sample_path sample_commit2
    \<and> fst (clean_old_backups sample_env sample_path 1 sample_tracked 3 sample_commit2) = Inr ?tr
    \<and> ?b \<in> set (drop (nat 1) (get_all_backup_files sample_env sample_path sample_commit2))
    \<and> map_of (fs sample_commit2) (get_backup_path sample_env sample_path ''a1'')
        = Some (sample_file (sample_gzip ''hello'') 1)"
    by code_simp
  have c1: "create_backup sample_env sample_path ''a1'' (Some 2) 1 sample_state
      = (Inr (get_backup_path sample_env sample_path ''a1''), sample_commit1)"
    using h by (simp add: sample_commit1_def prod_eq_iff)
  have c2: "create_backup sample_env sample_path ''b2'' (Some 2) 2 sample_commit1
      = (Inr (get_backup_path sample_env sample_path ''b2''), sample_commit2)"
    using h by (simp add: sample_commit2_def prod_eq_iff)
  have c3: "create_backup sample_env sample_path ''c3'' (Some 2) 3 sample_commit2
      = (Inr (get_backup_path sample_env sample_path ''c3''), sample_commit3)"
    using h by (simp add: sample_commit3_def prod_eq_iff)
  have cl: "clean_old_backups sample_env sample_path 1 sample_tracked 3 sample_commit2
      = (Inr ?tr, snd (clean_old_backups sample_env sample_path 1 sample_tracked 3 sample_commit2))"
    using h by (simp add: prod_eq_iff)
  have s: "check_backup_exists sample_env sample_path ''a1'' sample_commit3 = (False, sample_commit3)
     \<and> check_backup_exists sample_env sample_path ''b2'' sample_commit3 = (True, sample_commit3)
     \<and> check_backup_exists sample_env sample_path ''c3'' sample_commit3 = (True, sample_commit3)"
    using retention_enforced [THEN conjunct2, THEN conjunct2, THEN conjunct2, rule_format,
      of "''a1''" "''b2''" "''c3''" 1 2 3 sample_env sample_path sample_state _ sample_commit1
         sample_commit1 _ sample_commit2 sample_commit2 _ sample_commit3]
      h c1 c2 c3 by simp
  have n: "int (length (get_all_backup_files sample_env sample_path sample_commit3)) \<le> 2"
    using retention_enforced [THEN conjunct2, THEN conjunct2, THEN conjunct1, rule_format,
      of sample_env sample_path "''c3''" "Some 2" 3 sample_commit2 _ sample_commit3]
      h c3 by simp
  have i: "\<not> path_exists
        (fs (snd (clean_old_backups sample_env sample_path 1 sample_tracked 3 sample_commit2)))
        (b_path ?b)
     \<and> lookup_version ?tr (path_str sample_path) (b_hash ?b) = None"
    using retention_enforced [THEN conjunct2, THEN conjunct1, rule_format,
      of sample_env sample_path 1 sample_tracked 3 sample_commit2 ?tr _ ?b
         "sample_file (sample_gzip ''hello'') 1"]
      h cl by (simp add: sample_file_def)
  from h s n i show ?thesis by simp
qed

subsection \<open>Round trip and negative cache\<close>

text \<open>
  C3. Round trip: when \<^verbatim>\<open>create_backup\<close> succeeds on a file whose bytes are \<open>B\<close>, under a
  retention limit of at least one and with every blob of the directory written earlier,
  \<^verbatim>\<open>get_version_content\<close> for the same path and hash returns exactly \<open>B\<close>, for every
  coder and decoder such that decoding inverts coding.
\<close>

theorem round_trip:
  assumes codec: "\<forall>data. gzip_decompress env (gzip_compress env data) = Some data"
    and rd: "read_file (fs st) p = Inr B"
    and ok: "create_backup env p H settings now st = (Inr bp, st')"
    and mx: "1 \<le> (case settings of None \<Rightarrow> 5 | Some m \<Rightarrow> m)"
    and old: "blobs_older env p now st"
    and hex: "is_hex_digest H"
    and notself: "p \<noteq> get_backup_path env p H"
  shows "get_version_content env p H st' = (Inr B, st')"
proof -
  note older = blobs_older_others [OF old, of "H @ ''.gz''"]
  from create_backup_keeps_new [OF ok mx older] obtain data fnew where
    d: "read_file (fs st) p = Inr data" and f: "map_of (fs st') (get_backup_path env p H) = Some fnew"
    and c: "content fnew = gzip_compress env (if p = get_backup_path env p H then [] else data)"
    by blast
  from d rd have "data = B" by simp
  with c notself have c': "content fnew = gzip_compress env B" by simp
  have nk: "get_cache_key p H \<notin> known_missing_backups st'"
    by (rule create_backup_new_not_cached [OF ok mx older hex])
  have chk: "check_backup_exists env p H st' = (True, st')"
    by (rule check_primary [OF nk f])
  show ?thesis
    using chk f c' codec by (simp add: get_version_content_def read_file_def)
qed

theorem round_trip_witness:
  "(\<forall>data. gzip_decompress sample_env (gzip_compress sample_env data) = Some data)
   \<and> read_file (fs sample_state) sample_path = Inr ''hello''
   \<and> fst (create_backup sample_env sample_path ''a1'' (Some 2) 1 sample_state)
       = Inr (get_backup_path sample_env sample_path ''a1'')
   \<and> blobs_older sample_env sample_path 1 sample_state
   \<and> is_hex_digest ''a1''
   \<and> sample_path \<noteq> get_backup_path sample_env sample_path ''a1''
   \<and> get_version_content sample_env sample_path ''a1'' sample_commit1 = (Inr ''hello'', sample_commit1)"
proof -
  have codec: "\<forall>data. gzip_decompress sample_env (gzip_compress sample_env data) = Some data"
    by (simp add: sample_env_def sample_gzip_def)
  have h: "read_file (fs sample_state) sample_path = Inr ''hello''
   \<and> fst (create_backup sample_env sample_path ''a1'' (Some 2) 1 sample_state)
       = Inr (get_backup_path sample_env sample_path ''a1'')
   \<and> blobs_older sample_env sample_path 1 sample_state
   \<and> is_hex_digest ''a1''
   \<and> sample_path \<noteq> get_backup_path sample_env sample_path ''a1''"
    by code_simp
  have c1: "create_backup sample_env sample_path ''a1'' (Some 2) 1 sample_state
      = (Inr (get_backup_path sample_env sample_path ''a1''), sample_commit1)"
    using h by (simp add: sample_commit1_def prod_eq_iff)
  have mx: "1 \<le> (case Some (2::int) of None \<Rightarrow> 5 | Some m \<Rightarrow> m)" by simp
  have "get_version_content sample_env sample_path ''a1'' sample_commit1 = (Inr ''hello'', sample_commit1)"
    using h by (intro round_trip [OF codec _ c1 mx]) simp_all
  with codec h show ?thesis by simp
qed




subsection \<open>Reading a blob that is not at the primary location\<close>

lemma copy2_other:
  assumes "copy2 files src dst now = Inr files'" and "q \<noteq> dst"
  shows "map_of files' q = map_of files q"
proof -
  from assms(1) obtain f where f: "map_of files src = Some f" and ne: "src \<noteq> dst"
    by (auto simp: copy2_def split: option.splits if_splits)
  from assms(1) f ne obtain fs1 where w: "write_file files dst (content f) now = Inr fs1"
    by (auto simp: copy2_def split: sum.splits)
  from write_file_map_of [OF w] obtain g where g: "map_of fs1 = (map_of files)(dst \<mapsto> g)" by blast
  have "files' = AList.update dst (g\<lparr>mtime := mtime f\<rparr>) fs1"
    using assms(1) f ne w g by (simp add: copy2_def)
  then show ?thesis using g assms(2) by (simp add: update_conv')
qed

lemma gunzip_to_missing:
  "map_of files src = None \<Longrightarrow> gunzip_to env files src dst now = (Inl FileNotFoundError, files)"
  by (simp add: gunzip_to_def read_file_def)

lemma restore_reraise_fst [simp]: "fst (restore_reraise e st) = Inl e"
  by (simp add: restore_reraise_def)

lemma restore_office_document_missing:
  assumes "map_of (fs st) bp = None"
  shows "\<exists>e. fst (restore_office_document env t bp now st) = Inl e"
proof (cases "path_exists (fs st) t \<and> \<not> can_write_to_file (fs st) t")
  case True
  then show ?thesis
    by (auto simp: restore_office_document_def office_try_def Let_def split: sum.splits)
next
  case False
  then show ?thesis using assms
    by (auto simp: restore_office_document_def office_try_def Let_def gunzip_to_missing split: sum.splits)
qed

lemma get_temp_backup_path_dir [simp]:
  "fst (get_temp_backup_path env p) = dir_join (backup_folder env) ''temp_backups''"
  by (simp add: get_temp_backup_path_def Let_def)

lemma temp_not_blob [simp]: "get_backup_path env p h \<noteq> get_temp_backup_path env q"
proof
  assume "get_backup_path env p h = get_temp_backup_path env q"
  then have "fst (get_backup_path env p h) = fst (get_temp_backup_path env q)" by simp
  then show False by (simp add: get_backup_path_def)
qed

lemma restore_missing_raises:
  assumes n: "map_of (fs st) (get_backup_path env p h) = None"
  shows "\<exists>e. fst (restore_file_version env p h now st) = Inl e"
proof -
  obtain r st1 where c: "check_backup_exists env p h st = (r, st1)"
    by (cases "check_backup_exists env p h st")
  have fs1: "fs st1 = fs st" using c check_fs [of env p h st] by simp
  show ?thesis
  proof (cases r)
    case False
    with c show ?thesis by (simp add: restore_file_version_def)
  next
    case True
    let ?cp = "if path_exists (fs st1) p then copy2 (fs st1) p (get_temp_backup_path env p) now
               else Inr (fs st1)"
    show ?thesis
    proof (cases ?cp)
      case (Inl e)
      with c True show ?thesis by (simp add: restore_file_version_def Let_def)
    next
      case (Inr fs2)
      have n2: "map_of fs2 (get_backup_path env p h) = None"
      proof (cases "path_exists (fs st1) p")
        case True
        with Inr have "copy2 (fs st1) p (get_temp_backup_path env p) now = Inr fs2" by simp
        from copy2_other [OF this, of "get_backup_path env p h"] n fs1 show ?thesis by simp
      next
        case False
        with Inr n fs1 show ?thesis by simp
      qed
      show ?thesis
      proof (cases "lower (snd (splitext (snd p))) \<in> set office_extensions")
        case off: True
        from restore_office_document_missing [of "st1\<lparr>fs := fs2\<rparr>" "get_backup_path env p h" env p now]
        obtain e where "fst (restore_office_document env p (get_backup_path env p h) now (st1\<lparr>fs := fs2\<rparr>)) = Inl e"
          using n2 by auto
        then show ?thesis using c True Inr off
          by (cases "restore_office_document env p (get_backup_path env p h) now (st1\<lparr>fs := fs2\<rparr>)")
             (simp add: restore_file_version_def Let_def)
      next
        case noff: False
        show ?thesis using c True Inr noff n2
          by (simp add: restore_file_version_def Let_def gunzip_to_missing)
      qed
    qed
  qed
qed

lemma get_version_content_missing:
  assumes n: "map_of (fs st) (get_backup_path env p h) = None"
  shows "fst (get_version_content env p h st) = Inl FileNotFoundError"
proof -
  obtain r st1 where c: "check_backup_exists env p h st = (r, st1)"
    by (cases "check_backup_exists env p h st")
  have fs1: "fs st1 = fs st" using c check_fs [of env p h st] by simp
  show ?thesis using c n fs1
    by (cases r) (simp_all add: get_version_content_def read_file_def)
qed


lemma check_uncached:
  assumes "get_cache_key p h \<notin> known_missing_backups st"
  shows "fst (check_backup_exists env p h st)
     = (path_exists (fs st) (get_backup_path env p h) \<or> path_exists (fs st) (old_backup_path env p h))"
  using assms by (auto simp: check_backup_exists_def Let_def)

text \<open>
  C10. The existence check and the read paths over the old layout. A pair that is not in
  the negative cache exists exactly when a blob is at the primary or at the old location;
  a pair in the cache does not exist, wherever a blob may be. \<^verbatim>\<open>get_version_content\<close> and
  \<^verbatim>\<open>restore_file_version\<close> read the primary location only: with no blob there the first
  raises \<^verbatim>\<open>FileNotFoundError\<close> and the second raises. So for a blob at the old location
  only and a pair not in the cache, the check is true and both reads raise.
\<close>

theorem legacy_layout_asymmetry:
  "(get_cache_key p H \<notin> known_missing_backups st \<longrightarrow>
      fst (check_backup_exists env p H st)
        = (path_exists (fs st) (get_backup_path env p H)
           \<or> path_exists (fs st) (old_backup_path env p H)))
   \<and> (get_cache_key p H \<in> known_missing_backups st \<longrightarrow>
        fst (check_backup_exists env p H st) = False)
   \<and> (\<not> path_exists (fs st) (get_backup_path env p H) \<longrightarrow>
        fst (get_version_content env p H st) = Inl FileNotFoundError
        \<and> (\<exists>e. fst (restore_file_version env p H now st) = Inl e))
   \<and> (get_cache_key p H \<notin> known_missing_backups st
        \<and> \<not> path_exists (fs st) (get_backup_path env p H)
        \<and> path_exists (fs st) (old_backup_path env p H) \<longrightarrow>
        check_backup_exists env p H st = (True, st)
        \<and> fst (get_version_content env p H st) = Inl FileNotFoundError
        \<and> (\<exists>e. fst (restore_file_version env p H now st) = Inl e))"
proof (intro conjI impI)
  assume "get_cache_key p H \<notin> known_missing_backups st"
  then show "fst (check_backup_exists env p H st)
        = (path_exists (fs st) (get_backup_path env p H)
           \<or> path_exists (fs st) (old_backup_path env p H))"
    by (rule check_uncached)
next
  assume "get_cache_key p H \<in> known_missing_backups st"
  then show "fst (check_backup_exists env p H st) = False" by (simp add: check_cached)
next
  assume "\<not> path_exists (fs st) (get_backup_path env p H)"
  then have n: "map_of (fs st) (get_backup_path env p H) = None" by (simp add: path_exists_def)
  from n show "fst (get_version_content env p H st) = Inl FileNotFoundError"
    by (rule get_version_content_missing)
  from n show "\<exists>e. fst (restore_file_version env p H now st) = Inl e"
    by (rule restore_missing_raises)
next
  assume a: "get_cache_key p H \<notin> known_missing_backups st
        \<and> \<not> path_exists (fs st) (get_backup_path env p H)
        \<and> path_exists (fs st) (old_backup_path env p H)"
  then have n: "map_of (fs st) (get_backup_path env p H) = None" by (simp add: path_exists_def)
  from a show "check_backup_exists env p H st = (True, st)"
    by (simp add: check_backup_exists_def Let_def)
  from n show "fst (get_version_content env p H st) = Inl FileNotFoundError"
    by (rule get_version_content_missing)
  from n show "\<exists>e. fst (restore_file_version env p H now st) = Inl e"
    by (rule restore_missing_raises)
qed

theorem legacy_layout_asymmetry_witness:
  "(get_cache_key sample_path ''a1'' \<notin> known_missing_backups legacy_state
    \<and> \<not> path_exists (fs legacy_state) (get_backup_path sample_env sample_path ''a1'')
    \<and> path_exists (fs legacy_state) (old_backup_path sample_env sample_path ''a1'')
    \<and> get_cache_key sample_path ''a1'' \<in> known_missing_backups legacy_commit2)
   \<and> fst (check_backup_exists sample_env sample_path ''a1'' legacy_state)
        = (path_exists (fs legacy_state) (get_backup_path sample_env sample_path ''a1'')
           \<or> path_exists (fs legacy_state) (old_backup_path sample_env sample_path ''a1''))
   \<and> fst (check_backup_exists sample_env sample_path ''a1'' legacy_commit2) = False
   \<and> check_backup_exists sample_env sample_path ''a1'' legacy_state = (True, legacy_state)
   \<and> fst (get_version_content sample_env sample_path ''a1'' legacy_state) = Inl FileNotFoundError
   \<and> (\<exists>e. fst (restore_file_version sample_env sample_path ''a1'' 5 legacy_state) = Inl e)"
proof -
  have h: "get_cache_key sample_path ''a1'' \<notin> known_missing_backups legacy_state
    \<and> \<not> path_exists (fs legacy_state) (get_backup_path sample_env sample_path ''a1'')
    \<and> path_exists (fs legacy_state) (old_backup_path sample_env sample_path ''a1'')
    \<and> get_cache_key sample_path ''a1'' \<in> known_missing_backups legacy_commit2"
    by code_simp
  note t1 = legacy_layout_asymmetry [where p = sample_path and H = "''a1''" and st = legacy_state
      and env = sample_env and now = 5]
  note t2 = legacy_layout_asymmetry [where p = sample_path and H = "''a1''" and st = legacy_commit2
      and env = sample_env and now = 5]
  from t1 [THEN conjunct1] t2 [THEN conjunct2, THEN conjunct1]
    t1 [THEN conjunct2, THEN conjunct2, THEN conjunct1]
    t1 [THEN conjunct2, THEN conjunct2, THEN conjunct2] h
  show ?thesis by blast
qed

theorem legacy_blob_cached_counterexample:
  "fst (create_backup sample_env sample_path ''a1'' (Some 1) 1 legacy_state)
     = Inr (get_backup_path sample_env sample_path ''a1'')
   \<and> fst (create_backup sample_env sample_path ''b2'' (Some 1) 2 legacy_commit1)
     = Inr (get_backup_path sample_env sample_path ''b2'')
   \<and> path_exists (fs legacy_commit2) (old_backup_path sample_env sample_path ''a1'')
   \<and> \<not> path_exists (fs legacy_commit2) (get_backup_path sample_env sample_path ''a1'')
   \<and> check_backup_exists sample_env sample_path ''a1'' legacy_commit2 = (False, legacy_commit2)"
  by code_simp

subsection \<open>Restoring a version\<close>

lemma copy2_error:
  assumes "copy2 files src dst now = Inl e" and "map_of files src = Some f" and "src \<noteq> dst"
  shows "e = PermissionError"
  using assms
  by (auto simp: copy2_def write_file_def split: option.splits if_splits sum.splits)

lemma bm_log_error_boxes [simp]: "error_boxes (bm_log_error m st) = error_boxes st"
  by (simp add: bm_log_error_def)

lemma restore_reraise_permission:
  "restore_reraise PermissionError st
     = (Inl PermissionError, (bm_log_error ''Permission denied restoring file'' st)
                  \<lparr>error_boxes := error_boxes st @ [''Permission Denied'']\<rparr>)"
  by (simp add: restore_reraise_def)

lemma check_true_state:
  assumes "fst (check_backup_exists env p h st) = True"
  shows "check_backup_exists env p h st = (True, st)"
  using assms by (auto simp: check_backup_exists_def Let_def split: if_splits)

lemma restore_office_document_locked:
  assumes "map_of (fs st) t = Some f" "locked f"
  shows "fst (restore_office_document env t bp now st) = Inl PermissionError
       \<and> error_boxes (snd (restore_office_document env t bp now st)) = error_boxes st"
  using assms
  by (auto simp: restore_office_document_def office_try_def Let_def path_exists_def can_write_to_file_def
      split: sum.splits)

lemma gunzip_to_locked:
  assumes "map_of files src = Some b" "map_of files dst = Some f" "locked f"
  shows "gunzip_to env files src dst now = (Inl PermissionError, files)"
  using assms by (simp add: gunzip_to_def read_file_def write_file_def)

lemma restore_locked:
  assumes chk: "fst (check_backup_exists env p h st) = True"
    and blob: "map_of (fs st) (get_backup_path env p h) = Some b"
    and tgt: "map_of (fs st) p = Some f" "locked f"
    and pt: "p \<noteq> get_temp_backup_path env p"
  shows "fst (restore_file_version env p h now st) = Inl PermissionError
       \<and> error_boxes (snd (restore_file_version env p h now st))
           = error_boxes st @ [''Permission Denied'']"
proof -
  let ?tb = "get_temp_backup_path env p"
  let ?bp = "get_backup_path env p h"
  have c: "check_backup_exists env p h st = (True, st)" by (rule check_true_state [OF chk])
  have ex: "path_exists (fs st) p" using tgt by (simp add: path_exists_def)
  show ?thesis
  proof (cases "copy2 (fs st) p ?tb now")
    case (Inl e)
    from copy2_error [OF Inl tgt(1) pt] have "e = PermissionError" .
    with Inl c ex show ?thesis
      by (simp add: restore_file_version_def Let_def restore_reraise_permission)
  next
    case (Inr fs2)
    have p2: "map_of fs2 p = Some f" using copy2_other [OF Inr pt] tgt by simp
    have b2: "map_of fs2 ?bp = Some b" using copy2_other [OF Inr temp_not_blob] blob by simp
    show ?thesis
    proof (cases "lower (snd (splitext (snd p))) \<in> set office_extensions")
      case off: True
      let ?r = "restore_office_document env p ?bp now (st\<lparr>fs := fs2\<rparr>)"
      have o: "fst ?r = Inl PermissionError \<and> error_boxes (snd ?r) = error_boxes (st\<lparr>fs := fs2\<rparr>)"
        by (rule restore_office_document_locked [of "st\<lparr>fs := fs2\<rparr>" p f]) (simp_all add: p2 tgt)
      obtain st3 where r: "?r = (Inl PermissionError, st3)" and eb: "error_boxes st3 = error_boxes st"
        using o by (cases ?r) simp
      show ?thesis using c ex Inr off r eb
        by (simp add: restore_file_version_def Let_def restore_reraise_permission)
    next
      case noff: False
      have g: "gunzip_to env fs2 ?bp p now = (Inl PermissionError, fs2)"
        by (rule gunzip_to_locked [OF b2 p2 tgt(2)])
      show ?thesis using c ex Inr noff g
        by (simp add: restore_file_version_def Let_def restore_reraise_permission)
    qed
  qed
qed

lemma restore_not_found:
  assumes "fst (check_backup_exists env p h st) = False"
  shows "fst (restore_file_version env p h now st) = Inl FileNotFoundError"
  using assms
  by (cases "check_backup_exists env p h st") (simp add: restore_file_version_def)

lemma check_absent_false:
  assumes "\<not> path_exists (fs st) (get_backup_path env p h)"
    "\<not> path_exists (fs st) (old_backup_path env p h)"
  shows "fst (check_backup_exists env p h st) = False"
  using assms by (simp add: check_backup_exists_def Let_def)

lemma splitext_snd_drop: "\<exists>k. snd (splitext n) = drop k n"
proof (cases "snd (splitext n) = []")
  case True
  then have "snd (splitext n) = drop (length n) n" by simp
  then show ?thesis ..
next
  case False
  then show ?thesis
    unfolding splitext_def Let_def by (auto split: if_splits)
qed

lemma office_last:
  assumes "lower (snd (splitext n)) \<in> set office_extensions"
  shows "n \<noteq> [] \<and> lower_char (last n) \<in> {CHR ''c'', CHR ''x'', CHR ''s'', CHR ''t''}"
proof -
  obtain k where k: "snd (splitext n) = drop k n" using splitext_snd_drop by blast
  let ?e = "drop k n"
  from assms k have m: "map lower_char ?e \<in> set office_extensions" by (simp add: lower_def)
  then have ne: "?e \<noteq> []" by (auto simp: office_extensions_def)
  then have kn: "k < length n" by simp
  then have n: "n \<noteq> []" by auto
  have "last (map lower_char ?e) \<in> {CHR ''c'', CHR ''x'', CHR ''s'', CHR ''t''}"
    using m unfolding office_extensions_def by auto
  then have "lower_char (last ?e) \<in> {CHR ''c'', CHR ''x'', CHR ''s'', CHR ''t''}"
    using ne by (simp add: last_map)
  moreover have "last ?e = last n" using kn by (rule last_drop)
  ultimately show ?thesis using n by simp
qed

lemma office_temp_not_blob:
  assumes "lower (snd (splitext (snd p))) \<in> set office_extensions"
  shows "get_backup_path env p h \<noteq> (fst p, ''temp_'' @ snd p)"
proof
  assume "get_backup_path env p h = (fst p, ''temp_'' @ snd p)"
  then have "h @ ''.gz'' = ''temp_'' @ snd p" by (simp add: get_backup_path_def)
  then have "last (h @ ''.gz'') = last (''temp_'' @ snd p)" by simp
  moreover from office_last [OF assms] have n: "snd p \<noteq> []"
    and l: "lower_char (last (snd p)) \<in> {CHR ''c'', CHR ''x'', CHR ''s'', CHR ''t''}" by simp_all
  ultimately have "last (snd p) = CHR ''z''" using n by simp
  with l show False by (simp add: lower_char_def)
qed

lemma office_temp_not_temp_backup:
  assumes "lower (snd (splitext (snd p))) \<in> set office_extensions"
  shows "get_temp_backup_path env p \<noteq> (fst p, ''temp_'' @ snd p)"
proof
  assume "get_temp_backup_path env p = (fst p, ''temp_'' @ snd p)"
  then obtain ts where "snd p @ ''.'' @ ts @ ''.bak'' = ''temp_'' @ snd p"
    by (auto simp: get_temp_backup_path_def Let_def)
  then have "last (snd p @ ''.'' @ ts @ ''.bak'') = last (''temp_'' @ snd p)" by simp
  moreover from office_last [OF assms] have n: "snd p \<noteq> []"
    and l: "lower_char (last (snd p)) \<in> {CHR ''c'', CHR ''x'', CHR ''s'', CHR ''t''}" by simp_all
  ultimately have "last (snd p) = CHR ''k''" using n by simp
  with l show False by (simp add: lower_char_def)
qed

lemma temp_not_target [simp]: "(fst t, ''temp_'' @ snd t) \<noteq> t"
  by (cases t) simp

lemma gunzip_to_ok:
  assumes "gunzip_to env fs0 src dst now = (Inr u, files')" and "src \<noteq> dst"
  shows "\<exists>bytes data g. read_file fs0 src = Inr bytes \<and> gzip_decompress env bytes = Some data
      \<and> map_of files' = (map_of fs0)(dst \<mapsto> g) \<and> content g = data \<and> \<not> locked g"
proof -
  from assms obtain bytes where rd: "read_file fs0 src = Inr bytes"
    by (cases "read_file fs0 src") (simp_all add: gunzip_to_def)
  from assms rd obtain fs1 where w1: "write_file fs0 dst [] now = Inr fs1"
    by (cases "write_file fs0 dst [] now") (simp_all add: gunzip_to_def)
  from assms rd w1 obtain data where d: "gzip_decompress env bytes = Some data"
    by (cases "gzip_decompress env bytes") (simp_all add: gunzip_to_def)
  from assms rd w1 d have w2: "write_file fs1 dst data now = Inr files'"
    by (cases "write_file fs1 dst data now") (simp_all add: gunzip_to_def)
  from write_file_map_of [OF w1] obtain g1 where g1: "map_of fs1 = (map_of fs0)(dst \<mapsto> g1)" by blast
  from write_file_map_of [OF w2] obtain g where
    g: "map_of files' = (map_of fs1)(dst \<mapsto> g)" "content g = data" "\<not> locked g" by blast
  have "map_of files' = (map_of fs0)(dst \<mapsto> g)" using g(1) g1 by simp
  with rd d g(2,3) show ?thesis by blast
qed

text \<open>Whatever \<^verbatim>\<open>gzip.open\<close> and \<^verbatim>\<open>open\<close> do to a destination that is absent or can be
  written, the destination is absent or can be written afterwards, and nothing else
  changes.\<close>

lemma gunzip_to_dst:
  assumes "gunzip_to env fs0 src dst now = (r, files')" and "can_write_to_file fs0 dst"
  shows "can_write_to_file files' dst \<and> (\<forall>q. q \<noteq> dst \<longrightarrow> map_of files' q = map_of fs0 q)"
proof (cases "read_file fs0 src")
  case (Inl e)
  with assms show ?thesis by (simp add: gunzip_to_def)
next
  case (Inr bytes)
  show ?thesis
  proof (cases "write_file fs0 dst [] now")
    case (Inl e)
    with assms Inr show ?thesis by (simp add: gunzip_to_def)
  next
    case w1: (Inr fs1)
    from write_file_map_of [OF w1] obtain g1 where
      g1: "map_of fs1 = (map_of fs0)(dst \<mapsto> g1)" "\<not> locked g1" by blast
    have c1: "can_write_to_file fs1 dst \<and> (\<forall>q. q \<noteq> dst \<longrightarrow> map_of fs1 q = map_of fs0 q)"
      using g1 by (simp add: can_write_to_file_def)
    show ?thesis
    proof (cases "gzip_decompress env (if src = dst then [] else bytes)")
      case None
      with assms Inr w1 have "files' = fs1" by (simp add: gunzip_to_def)
      with c1 show ?thesis by simp
    next
      case (Some data)
      show ?thesis
      proof (cases "write_file fs1 dst data now")
        case (Inl e)
        with assms Inr w1 Some have "files' = fs1" by (simp add: gunzip_to_def)
        with c1 show ?thesis by simp
      next
        case w2: (Inr fs2)
        with assms Inr w1 Some have f: "files' = fs2" by (simp add: gunzip_to_def)
        from write_file_map_of [OF w2] obtain g where
          g: "map_of fs2 = (map_of fs1)(dst \<mapsto> g)" "\<not> locked g" by blast
        show ?thesis unfolding f using g g1 by (simp add: can_write_to_file_def)
      qed
    qed
  qed
qed

lemma replace_file_ok:
  assumes "replace_file files src dst = Inr files'" and "src \<noteq> dst"
  shows "\<exists>f. map_of files src = Some f \<and> map_of files' = (map_of files)(src := None, dst \<mapsto> f)"
  using assms
  by (auto simp: replace_file_def update_conv' delete_conv' split: option.splits if_splits)

lemma rename_file_ok:
  assumes "rename_file w files src dst = Inr files'" and "src \<noteq> dst"
  shows "\<exists>f. map_of files src = Some f \<and> map_of files' = (map_of files)(src := None, dst \<mapsto> f)"
  using assms replace_file_ok [of files src dst files']
  by (auto simp: rename_file_def split: if_splits)

lemma remove_file_other:
  "(case remove_file files t of Inl e \<Rightarrow> files | Inr files' \<Rightarrow> files') = files2 \<Longrightarrow> q \<noteq> t
   \<Longrightarrow> map_of files2 q = map_of files q"
  by (auto simp: remove_file_def delete_conv' split: option.splits if_splits)

lemma office_try_failure:
  assumes r: "office_try env t bp tmp now st = (Inl e, st1)"
    and w: "can_write_to_file (fs st) tmp" and ne: "tmp \<noteq> t"
  shows "can_write_to_file (fs st1) tmp"
proof (cases "path_exists (fs st) t \<and> \<not> can_write_to_file (fs st) t")
  case True
  with r have "fs st1 = fs st" by (auto simp: office_try_def)
  with w show ?thesis by simp
next
  case False
  obtain g fs1 where gz: "gunzip_to env (fs st) bp tmp now = (g, fs1)"
    by (cases "gunzip_to env (fs st) bp tmp now")
  from gunzip_to_dst [OF gz w] have w1: "can_write_to_file fs1 tmp" by (rule conjunct1)
  show ?thesis
  proof (cases g)
    case (Inl e1)
    with r False gz have "fs st1 = fs1" by (auto simp: office_try_def)
    with w1 show ?thesis by simp
  next
    case (Inr u)
    show ?thesis
    proof (cases "path_exists fs1 t \<and> is_windows env")
      case True
      let ?fs2 = "case remove_file fs1 t of Inl e \<Rightarrow> fs1 | Inr fs' \<Rightarrow> fs'"
      have "map_of ?fs2 tmp = map_of fs1 tmp" by (rule remove_file_other [OF refl ne])
      then have w2: "can_write_to_file ?fs2 tmp" using w1 by (simp add: can_write_to_file_def)
      from r False gz Inr True have "fs st1 = ?fs2"
        by (auto simp: office_try_def Let_def split: sum.splits)
      with w2 show ?thesis by simp
    next
      case nw: False
      from r False gz Inr nw have "fs st1 = fs1"
        by (auto simp: office_try_def Let_def split: sum.splits if_splits)
      with w1 show ?thesis by simp
    qed
  qed
qed

lemma office_failure_cleanup:
  assumes r: "restore_office_document env t bp now st = (Inl e, st')"
    and w: "can_write_to_file (fs st) (fst t, ''temp_'' @ snd t)"
  shows "\<not> path_exists (fs st') (fst t, ''temp_'' @ snd t)"
proof -
  let ?tmp = "(fst t, ''temp_'' @ snd t)"
  obtain a st1 where att: "office_try env t bp ?tmp now st = (a, st1)"
    by (cases "office_try env t bp ?tmp now st")
  from r att obtain e1 where a: "a = Inl e1"
    by (cases a) (simp_all add: restore_office_document_def)
  have w1: "can_write_to_file (fs st1) ?tmp"
    by (rule office_try_failure [OF att [unfolded a] w temp_not_target])
  show ?thesis
  proof (cases "map_of (fs st1) ?tmp")
    case None
    with r att a have "st' = st1" by (simp add: restore_office_document_def path_exists_def)
    with None show ?thesis by (simp add: path_exists_def)
  next
    case (Some g)
    with w1 have "\<not> locked g" by (simp add: can_write_to_file_def)
    with r att a Some have "st' = st1\<lparr>fs := AList.delete ?tmp (fs st1)\<rparr>"
      by (simp add: restore_office_document_def path_exists_def remove_file_def)
    then show ?thesis by (simp add: path_exists_def delete_conv')
  qed
qed

lemma office_success:
  assumes r: "restore_office_document env t bp now st = (Inr u, st')"
    and ne: "bp \<noteq> (fst t, ''temp_'' @ snd t)"
  shows "\<exists>bytes data. read_file (fs st) bp = Inr bytes \<and> gzip_decompress env bytes = Some data
      \<and> read_file (fs st') t = Inr data \<and> \<not> path_exists (fs st') (fst t, ''temp_'' @ snd t)"
proof -
  let ?tmp = "(fst t, ''temp_'' @ snd t)"
  have tt: "?tmp \<noteq> t" by (rule temp_not_target)
  from r have att: "office_try env t bp ?tmp now st = (Inr u, st')"
    by (cases "office_try env t bp ?tmp now st")
       (auto simp: restore_office_document_def Let_def split: sum.splits if_splits)
  have nl: "\<not> (path_exists (fs st) t \<and> \<not> can_write_to_file (fs st) t)"
  proof
    assume "path_exists (fs st) t \<and> \<not> can_write_to_file (fs st) t"
    then have "fst (office_try env t bp ?tmp now st) = Inl PermissionError"
      by (simp add: office_try_def)
    with att show False by simp
  qed
  obtain g fs1 where gz: "gunzip_to env (fs st) bp ?tmp now = (g, fs1)"
    by (cases "gunzip_to env (fs st) bp ?tmp now")
  from att nl gz obtain u1 where g: "g = Inr u1"
    by (cases g) (auto simp: office_try_def)
  from gunzip_to_ok [OF gz [unfolded g] ne] obtain bytes data f where
    rd: "read_file (fs st) bp = Inr bytes" and d: "gzip_decompress env bytes = Some data"
    and m1: "map_of fs1 = (map_of (fs st))(?tmp \<mapsto> f)" and cf: "content f = data" by blast
  have "\<exists>w files. rename_file w files ?tmp t = Inr (fs st') \<and> map_of files ?tmp = Some f"
  proof (cases "path_exists fs1 t")
    case True
    show ?thesis
    proof (cases "is_windows env")
      case win: True
      let ?fs2 = "case remove_file fs1 t of Inl e \<Rightarrow> fs1 | Inr fs' \<Rightarrow> fs'"
      have "map_of ?fs2 ?tmp = map_of fs1 ?tmp" by (rule remove_file_other [OF refl tt])
      then have "map_of ?fs2 ?tmp = Some f" using m1 by simp
      moreover from att nl gz g True win have "rename_file True ?fs2 ?tmp t = Inr (fs st')"
        by (auto simp: office_try_def Let_def split: sum.splits)
      ultimately show ?thesis by blast
    next
      case nwin: False
      from att nl gz g True nwin have "replace_file fs1 ?tmp t = Inr (fs st')"
        by (auto simp: office_try_def Let_def split: sum.splits)
      then have "rename_file False fs1 ?tmp t = Inr (fs st')" by (simp add: rename_file_def)
      moreover have "map_of fs1 ?tmp = Some f" using m1 by simp
      ultimately show ?thesis by blast
    qed
  next
    case False
    from att nl gz g False have "rename_file (is_windows env) fs1 ?tmp t = Inr (fs st')"
      by (auto simp: office_try_def Let_def split: sum.splits)
    moreover have "map_of fs1 ?tmp = Some f" using m1 by simp
    ultimately show ?thesis by blast
  qed
  then obtain w files where rn: "rename_file w files ?tmp t = Inr (fs st')"
    and mf: "map_of files ?tmp = Some f" by blast
  from rename_file_ok [OF rn tt] mf
  have "map_of (fs st') = (map_of files)(?tmp := None, t \<mapsto> f)" by auto
  then have "map_of (fs st') t = Some f" and "map_of (fs st') ?tmp = None" using tt by auto
  then have "read_file (fs st') t = Inr data" and "\<not> path_exists (fs st') ?tmp"
    using cf by (simp_all add: read_file_def path_exists_def)
  with rd d show ?thesis by blast
qed

lemma restore_reraise_fs [simp]: "fs (snd (restore_reraise e st)) = fs st"
  by (simp add: restore_reraise_def bm_log_error_def)

lemma target_not_temp_backup [simp]: "p \<noteq> get_temp_backup_path env p"
proof
  assume "p = get_temp_backup_path env p"
  then have "snd p = snd (get_temp_backup_path env p)" by simp
  then have "length (snd p) = length (snd (get_temp_backup_path env p))" by simp
  then show False by (simp add: get_temp_backup_path_def Let_def)
qed

lemma restore_steps:
  assumes r: "restore_file_version env p h now st = (res, st')"
    and off: "lower (snd (splitext (snd p))) \<in> set office_extensions"
  shows "(\<exists>e. res = Inl e \<and> fs st' = fs st)
       \<or> (\<exists>fs2 st3. (\<forall>q. q \<noteq> get_temp_backup_path env p \<longrightarrow> map_of fs2 q = map_of (fs st) q)
            \<and> restore_office_document env p (get_backup_path env p h) now (st\<lparr>fs := fs2\<rparr>) = (res, st3)
            \<and> fs st' = fs st3)"
proof -
  let ?tb = "get_temp_backup_path env p"
  obtain c st1 where c: "check_backup_exists env p h st = (c, st1)"
    by (cases "check_backup_exists env p h st")
  have fs1: "fs st1 = fs st" using c check_fs [of env p h st] by simp
  show ?thesis
  proof (cases c)
    case False
    with c r have "restore_reraise FileNotFoundError st1 = (res, st')"
      by (simp add: restore_file_version_def)
    then have "fst (restore_reraise FileNotFoundError st1) = res"
      and "fs (snd (restore_reraise FileNotFoundError st1)) = fs st'" by simp_all
    then have "res = Inl FileNotFoundError \<and> fs st' = fs st" using fs1 by simp
    then show ?thesis by blast
  next
    case True
    then have st1: "st1 = st" using c check_true_state [of env p h st] by simp
    let ?cp = "if path_exists (fs st) p then copy2 (fs st) p ?tb now else Inr (fs st)"
    show ?thesis
    proof (cases ?cp)
      case (Inl e)
      with c True st1 r have "restore_reraise e st = (res, st')"
        by (simp add: restore_file_version_def Let_def)
      then have "fst (restore_reraise e st) = res"
        and "fs (snd (restore_reraise e st)) = fs st'" by simp_all
      then have "res = Inl e \<and> fs st' = fs st" by simp
      then show ?thesis by blast
    next
      case (Inr fs2)
      have same: "\<forall>q. q \<noteq> ?tb \<longrightarrow> map_of fs2 q = map_of (fs st) q"
      proof (cases "path_exists (fs st) p")
        case True
        with Inr have "copy2 (fs st) p ?tb now = Inr fs2" by simp
        then show ?thesis using copy2_other by blast
      next
        case False
        with Inr show ?thesis by simp
      qed
      obtain ro st3 where ro: "restore_office_document env p (get_backup_path env p h) now (st\<lparr>fs := fs2\<rparr>) = (ro, st3)"
        by (cases "restore_office_document env p (get_backup_path env p h) now (st\<lparr>fs := fs2\<rparr>)")
      show ?thesis
      proof (cases ro)
        case (Inl e)
        with c True st1 r Inr off ro have "restore_reraise e st3 = (res, st')"
          by (simp add: restore_file_version_def Let_def)
        then have "fst (restore_reraise e st3) = res"
          and "fs (snd (restore_reraise e st3)) = fs st'" by simp_all
        then have "res = ro \<and> fs st' = fs st3" using Inl by simp
        with same ro show ?thesis by blast
      next
        case (Inr u)
        with c True st1 r \<open>?cp = Inr fs2\<close> off ro have "res = ro \<and> st' = st3"
          by (simp add: restore_file_version_def Let_def)
        with same ro show ?thesis by blast
      qed
    qed
  qed
qed

lemma restore_office_failure:
  assumes r: "restore_file_version env p h now st = (Inl e, st')"
    and off: "lower (snd (splitext (snd p))) \<in> set office_extensions"
    and nt: "\<not> path_exists (fs st) (fst p, ''temp_'' @ snd p)"
  shows "\<not> path_exists (fs st') (fst p, ''temp_'' @ snd p)"
proof -
  let ?tmp = "(fst p, ''temp_'' @ snd p)"
  from restore_steps [OF r off] show ?thesis
  proof
    assume "\<exists>e'. Inl e = Inl e' \<and> fs st' = fs st"
    with nt show ?thesis by simp
  next
    assume "\<exists>fs2 st3. (\<forall>q. q \<noteq> get_temp_backup_path env p \<longrightarrow> map_of fs2 q = map_of (fs st) q)
            \<and> restore_office_document env p (get_backup_path env p h) now (st\<lparr>fs := fs2\<rparr>) = (Inl e, st3)
            \<and> fs st' = fs st3"
    then obtain fs2 st3 where same: "\<forall>q. q \<noteq> get_temp_backup_path env p \<longrightarrow> map_of fs2 q = map_of (fs st) q"
      and ro: "restore_office_document env p (get_backup_path env p h) now (st\<lparr>fs := fs2\<rparr>) = (Inl e, st3)"
      and f: "fs st' = fs st3" by blast
    have "?tmp \<noteq> get_temp_backup_path env p"
      using office_temp_not_temp_backup [OF off, of env] by simp
    with same have "map_of fs2 ?tmp = map_of (fs st) ?tmp" by blast
    with nt have "can_write_to_file (fs (st\<lparr>fs := fs2\<rparr>)) ?tmp"
      by (simp add: can_write_to_file_def path_exists_def)
    from office_failure_cleanup [OF ro this] f show ?thesis by simp
  qed
qed

lemma restore_office_success:
  assumes r: "restore_file_version env p h now st = (Inr u, st')"
    and off: "lower (snd (splitext (snd p))) \<in> set office_extensions"
  shows "\<exists>bytes data. read_file (fs st) (get_backup_path env p h) = Inr bytes
      \<and> gzip_decompress env bytes = Some data
      \<and> read_file (fs st') p = Inr data \<and> \<not> path_exists (fs st') (fst p, ''temp_'' @ snd p)"
proof -
  let ?tmp = "(fst p, ''temp_'' @ snd p)"
  let ?bp = "get_backup_path env p h"
  from restore_steps [OF r off] obtain fs2 st3 where
    same: "\<forall>q. q \<noteq> get_temp_backup_path env p \<longrightarrow> map_of fs2 q = map_of (fs st) q"
    and ro: "restore_office_document env p ?bp now (st\<lparr>fs := fs2\<rparr>) = (Inr u, st3)"
    and f: "fs st' = fs st3" by auto
  from office_success [OF ro office_temp_not_blob [OF off]] obtain bytes data where
    rd: "read_file fs2 ?bp = Inr bytes" and d: "gzip_decompress env bytes = Some data"
    and t: "read_file (fs st3) p = Inr data" and nt: "\<not> path_exists (fs st3) ?tmp" by auto
  have "map_of fs2 ?bp = map_of (fs st) ?bp" using same temp_not_blob by blast
  with rd have "read_file (fs st) ?bp = Inr bytes" by (simp add: read_file_def)
  with d t nt f show ?thesis by simp
qed



subsection \<open>Loading and saving the index\<close>

text \<open>
  C6. What \<^verbatim>\<open>load_tracked_files\<close> does for each state of the index file. A missing file
  gives the empty index. Bytes that decode but are no JSON give the empty index and a line
  in the error log when \<^verbatim>\<open>os.getlogin()\<close> succeeds, and raise its \<^verbatim>\<open>OSError\<close> when it does
  not. Bytes that are not UTF-8 raise \<^verbatim>\<open>UnicodeDecodeError\<close>, which no handler of the
  method catches: the method does raise to its caller.
\<close>

theorem load_tracked_files_raises:
  "(index_file st = Some bytes \<and> \<not> decodable bytes \<longrightarrow>
      load_tracked_files env st = (Inl UnicodeDecodeError, st))
   \<and> (index_file st = Some bytes \<and> decodable bytes \<and> json_loads env bytes = None
        \<and> getlogin env = None \<longrightarrow>
      load_tracked_files env st = (Inl OSError, st))
   \<and> (index_file st = None \<longrightarrow> load_tracked_files env st = (Inr [], st))
   \<and> (index_file st = Some bytes \<and> decodable bytes \<and> json_loads env bytes = None
        \<and> getlogin env = Some user \<longrightarrow>
      load_tracked_files env st
        = (Inr [], st\<lparr>vm_error_log := vm_error_log st
                         @ [(user, ''Error: tracked_files.json is corrupted.'')]\<rparr>))"
  by (simp add: load_tracked_files_def vm_log_error_def)

theorem load_tracked_files_raises_witness:
  "(index_file (sample_vm_state\<lparr>index_file := Some [CHR 0xFF]\<rparr>) = Some [CHR 0xFF]
    \<and> \<not> decodable [CHR 0xFF]
    \<and> index_file (sample_vm_state\<lparr>index_file := Some ''{''\<rparr>) = Some ''{''
    \<and> decodable ''{'' \<and> json_loads (sample_vm_env\<lparr>getlogin := None\<rparr>) ''{'' = None
    \<and> getlogin (sample_vm_env\<lparr>getlogin := None\<rparr>) = None
    \<and> index_file sample_vm_state = None
    \<and> json_loads sample_vm_env ''{'' = None \<and> getlogin sample_vm_env = Some ''user'')
   \<and> load_tracked_files sample_vm_env (sample_vm_state\<lparr>index_file := Some [CHR 0xFF]\<rparr>)
       = (Inl UnicodeDecodeError, sample_vm_state\<lparr>index_file := Some [CHR 0xFF]\<rparr>)
   \<and> load_tracked_files (sample_vm_env\<lparr>getlogin := None\<rparr>)
        (sample_vm_state\<lparr>index_file := Some ''{''\<rparr>)
       = (Inl OSError, sample_vm_state\<lparr>index_file := Some ''{''\<rparr>)
   \<and> load_tracked_files sample_vm_env sample_vm_state = (Inr [], sample_vm_state)
   \<and> load_tracked_files sample_vm_env (sample_vm_state\<lparr>index_file := Some ''{''\<rparr>)
       = (Inr [], sample_vm_state\<lparr>index_file := Some ''{'',
            vm_error_log := [(''user'', ''Error: tracked_files.json is corrupted.'')]\<rparr>)"
proof -
  let ?bad = "sample_vm_state\<lparr>index_file := Some [CHR 0xFF]\<rparr>"
  let ?cut = "sample_vm_state\<lparr>index_file := Some ''{''\<rparr>"
  have h: "index_file ?bad = Some [CHR 0xFF]
    \<and> \<not> decodable [CHR 0xFF]
    \<and> index_file ?cut = Some ''{''
    \<and> decodable ''{'' \<and> json_loads (sample_vm_env\<lparr>getlogin := None\<rparr>) ''{'' = None
    \<and> getlogin (sample_vm_env\<lparr>getlogin := None\<rparr>) = None
    \<and> index_file sample_vm_state = None
    \<and> json_loads sample_vm_env ''{'' = None \<and> getlogin sample_vm_env = Some ''user''"
    by code_simp
  have e: "vm_error_log ?cut = []" by (simp add: sample_vm_state_def)
  note t1 = load_tracked_files_raises [where st = ?bad and bytes = "[CHR 0xFF]" and env = sample_vm_env]
  note t2 = load_tracked_files_raises [where st = ?cut and bytes = "''{''"
      and env = "sample_vm_env\<lparr>getlogin := None\<rparr>"]
  note t3 = load_tracked_files_raises [where st = sample_vm_state and env = sample_vm_env]
  note t4 = load_tracked_files_raises [where st = ?cut and bytes = "''{''"
      and env = sample_vm_env and user = "''user''"]
  from t1 [THEN conjunct1] t2 [THEN conjunct2, THEN conjunct1]
    t3 [THEN conjunct2, THEN conjunct2, THEN conjunct1]
    t4 [THEN conjunct2, THEN conjunct2, THEN conjunct2] h e
  show ?thesis by (simp add: sample_vm_state_def)
qed

lemma vm_reraise_raises: "\<exists>e'. fst (vm_reraise env msg e st) = Inl e'"
  by (simp add: vm_reraise_def vm_log_error_def split: option.splits)

lemma vm_reraise_index [simp]: "index_file (snd (vm_reraise env msg e st)) = index_file st"
  by (simp add: vm_reraise_def vm_log_error_def split: option.splits)

text \<open>
  C8. \<^verbatim>\<open>save_tracked_files\<close> rewrites the index file in place. A save that succeeds
  leaves the whole serialisation of the index. A save that fails because the file cannot
  be opened for writing leaves the file as it was. A save that fails after the file was
  opened raises and leaves the chunks written before the failure, in place of what was
  there before.
\<close>

theorem save_tracked_files_in_place:
  "(index_writable st \<and> write_fault env = None \<longrightarrow>
      save_tracked_files env tracked st
        = (Inr (), st\<lparr>index_file := Some (concat (json_chunks env tracked))\<rparr>))
   \<and> (\<not> index_writable st \<longrightarrow>
        (\<exists>e. fst (save_tracked_files env tracked st) = Inl e)
        \<and> index_file (snd (save_tracked_files env tracked st)) = index_file st)
   \<and> (index_writable st \<and> write_fault env = Some k \<longrightarrow>
        (\<exists>e. fst (save_tracked_files env tracked st) = Inl e)
        \<and> index_file (snd (save_tracked_files env tracked st))
            = Some (concat (take k (json_chunks env tracked))))"
  by (simp add: save_tracked_files_def vm_reraise_raises)

theorem save_tracked_files_in_place_witness:
  "(index_writable persisted_vm_state \<and> write_fault sample_vm_env = None
    \<and> \<not> index_writable (persisted_vm_state\<lparr>index_writable := False\<rparr>)
    \<and> write_fault faulty_vm_env = Some 1)
   \<and> save_tracked_files sample_vm_env [] persisted_vm_state
       = (Inr (), persisted_vm_state\<lparr>index_file := Some ''{}''\<rparr>)
   \<and> (\<exists>e. fst (save_tracked_files sample_vm_env []
                  (persisted_vm_state\<lparr>index_writable := False\<rparr>)) = Inl e)
   \<and> index_file (snd (save_tracked_files sample_vm_env []
                         (persisted_vm_state\<lparr>index_writable := False\<rparr>)))
       = index_file persisted_vm_state
   \<and> (\<exists>e. fst (save_tracked_files faulty_vm_env sample_tracked persisted_vm_state) = Inl e)
   \<and> index_file (snd (save_tracked_files faulty_vm_env sample_tracked persisted_vm_state))
       = Some ''{''"
proof -
  have h: "index_writable persisted_vm_state \<and> write_fault sample_vm_env = None
    \<and> \<not> index_writable (persisted_vm_state\<lparr>index_writable := False\<rparr>)
    \<and> write_fault faulty_vm_env = Some 1"
    by code_simp
  have c: "concat (json_chunks sample_vm_env []) = ''{}''
    \<and> concat (take 1 (json_chunks faulty_vm_env sample_tracked)) = ''{''
    \<and> index_file (persisted_vm_state\<lparr>index_writable := False\<rparr>) = index_file persisted_vm_state"
    by code_simp
  note t1 = save_tracked_files_in_place [where st = persisted_vm_state and env = sample_vm_env
      and tracked = "[]"]
  note t2 = save_tracked_files_in_place [where st = "persisted_vm_state\<lparr>index_writable := False\<rparr>"
      and env = sample_vm_env and tracked = "[]"]
  note t3 = save_tracked_files_in_place [where st = persisted_vm_state and env = faulty_vm_env
      and tracked = sample_tracked and k = 1]
  from t1 [THEN conjunct1] t2 [THEN conjunct2, THEN conjunct1] t3 [THEN conjunct2, THEN conjunct2] h c
  show ?thesis by simp
qed

theorem save_not_atomic_counterexample:
  "fst (load_tracked_files faulty_vm_env persisted_vm_state) = Inr sample_tracked
   \<and> fst (save_tracked_files faulty_vm_env sample_tracked persisted_vm_state) = Inl OSError
   \<and> index_file (snd (save_tracked_files faulty_vm_env sample_tracked persisted_vm_state))
       = Some ''{''
   \<and> index_file (snd (save_tracked_files faulty_vm_env sample_tracked persisted_vm_state))
       \<noteq> index_file persisted_vm_state
   \<and> fst (load_tracked_files faulty_vm_env
            (snd (save_tracked_files faulty_vm_env sample_tracked persisted_vm_state))) = Inr []"
  by code_simp

subsection \<open>The poll of the change detector\<close>

lemma notify_fields [simp]:
  "watched_files (notify_system_tray_status env st) = watched_files st"
  "restoring_files (notify_system_tray_status env st) = restoring_files st"
  "lock_held (notify_system_tray_status env st) = lock_held st"
  "is_monitoring (notify_system_tray_status env st) = is_monitoring st"
  "background_queue (notify_system_tray_status env st) = background_queue st"
  "files_with_changes (notify_system_tray_status env st) = files_with_changes st"
  "filter (notifies p) (events (notify_system_tray_status env st)) = filter (notifies p) (events st)"
  "filter (\<lambda>ev. ev = Callback p b) (events (notify_system_tray_status env st))
     = filter (\<lambda>ev. ev = Callback p b) (events st)"
  by (simp_all add: notify_system_tray_status_def)

lemma cleanup_file_fields [simp]:
  "restoring_files (cleanup_file env q st) = restoring_files st"
  "lock_held (cleanup_file env q st) = lock_held st"
  "is_monitoring (cleanup_file env q st) = is_monitoring st"
  "background_queue (cleanup_file env q st) = background_queue st"
  "filter (notifies p) (events (cleanup_file env q st)) = filter (notifies p) (events st)"
  "filter (\<lambda>ev. ev = Callback p b) (events (cleanup_file env q st))
     = filter (\<lambda>ev. ev = Callback p b) (events st)"
  by (simp_all add: cleanup_file_def Let_def split: option.splits)

lemma cleanup_file_watched:
  "map_of (watched_files (cleanup_file env (Some k) st)) p
     = (if k = [] \<or> p \<noteq> k then map_of (watched_files st) p else None)"
  by (simp add: cleanup_file_def Let_def delete_conv')

lemma show_commit_dialog_fields [simp]:
  "watched_files (show_commit_dialog env k st) = watched_files st"
  "restoring_files (show_commit_dialog env k st) = restoring_files st"
  "lock_held (show_commit_dialog env k st) = lock_held st"
  "is_monitoring (show_commit_dialog env k st) = is_monitoring st"
  "background_queue (show_commit_dialog env k st) = background_queue st"
  "files_with_changes (show_commit_dialog env k st) = files_with_changes st"
  "last_dialog_time (show_commit_dialog env k st) = last_dialog_time st"
  "filter (\<lambda>ev. ev = Callback p b) (events (show_commit_dialog env k st))
     = filter (\<lambda>ev. ev = Callback p b) (events st)"
  by (simp_all add: show_commit_dialog_def)

lemma show_commit_dialog_notifies:
  "k \<noteq> p \<Longrightarrow> filter (notifies p) (events (show_commit_dialog env k st)) = filter (notifies p) (events st)"
  by (simp add: show_commit_dialog_def)

text \<open>What \<^verbatim>\<open>_handle_file_closed\<close> leaves, whatever its outcome.\<close>

lemma handle_file_closed_frame:
  assumes "handle_file_closed env view now k h st = (r, st')"
  shows "lock_held st' = lock_held st \<and> is_monitoring st' = is_monitoring st
     \<and> background_queue st' = background_queue st
     \<and> files_with_changes st' = files_with_changes st
     \<and> restoring_files st' \<subseteq> restoring_files st
     \<and> (k \<noteq> p \<longrightarrow> map_of (watched_files st') p = map_of (watched_files st) p)
     \<and> (k \<noteq> p \<longrightarrow> filter (notifies p) (events st') = filter (notifies p) (events st))
     \<and> filter (\<lambda>ev. ev = Callback p b) (events st') = filter (\<lambda>ev. ev = Callback p b) (events st)
     \<and> (k \<notin> restoring_files st \<longrightarrow> r \<noteq> Blocks)
     \<and> (r = Blocks \<longrightarrow> restoring_files st' = restoring_files st \<and> events st' = events st)"
proof (cases "case version_manager_load env of None \<Rightarrow> Inr (fm_tracked_files st) | Some r \<Rightarrow> r")
  case (Inl e)
  with assms have "r = Raises e \<and> st' = st" by (simp add: handle_file_closed_def)
  then show ?thesis by simp
next
  case (Inr tracked)
  let ?info = "\<lparr>e_hash = h,
                  e_mtime = (case view k of None \<Rightarrow> 0 | Some ob \<Rightarrow> o_mtime ob),
                  e_last_check = now,
                  e_is_open = False,
                  e_size = (case view k of None \<Rightarrow> 0 | Some ob \<Rightarrow> o_size ob)\<rparr>"
  let ?st1 = "st\<lparr>fm_tracked_files := tracked,
                        watched_files := AList.update k ?info (watched_files st)\<rparr>"
  show ?thesis
  proof (cases "k \<in> restoring_files st")
    case True
    with assms Inr have u: "unmark_file_as_restoring k ?st1 = (r, st')"
      by (simp add: handle_file_closed_def Let_def)
    show ?thesis
    proof (cases "lock_held st")
      case True
      with u have "r = Blocks \<and> st' = ?st1"
        by (simp add: unmark_file_as_restoring_def with_lock_def)
      then show ?thesis using \<open>k \<in> restoring_files st\<close> by (simp add: update_conv')
    next
      case False
      with u have "r = Returns () \<and> st' = ?st1\<lparr>lock_held := True, restoring_files := restoring_files st - {k},
          lock_held := False\<rparr>"
        by (simp add: unmark_file_as_restoring_def with_lock_def)
      then show ?thesis using False by (auto simp: update_conv')
    qed
  next
    case False
    show ?thesis
    proof (cases "map_of tracked k \<noteq> None
                      \<and> now - (case map_of (last_dialog_time st) k of
                                 None \<Rightarrow> 0 | Some t \<Rightarrow> t) > dialog_cooldown")
      case True
      with assms Inr False have "r = Returns () \<and> st' = (show_commit_dialog env k ?st1)
                      \<lparr>last_dialog_time := AList.update k now (last_dialog_time ?st1)\<rparr>"
        by (simp add: handle_file_closed_def Let_def)
      then show ?thesis by (simp add: update_conv' show_commit_dialog_notifies)
    next
      case nd: False
      with assms Inr False have "r = Returns () \<and> st' = ?st1"
        by (auto simp: handle_file_closed_def Let_def)
      then show ?thesis by (simp add: update_conv')
    qed
  qed
qed

lemma report_change_fields:
  "lock_held (report_change env k st) = lock_held st"
  "is_monitoring (report_change env k st) = is_monitoring st"
  "background_queue (report_change env k st) = background_queue st"
  "restoring_files (report_change env k st) = restoring_files st"
  "watched_files (report_change env k st) = watched_files st"
  "k \<noteq> p \<Longrightarrow> filter (notifies p) (events (report_change env k st)) = filter (notifies p) (events st)"
  "filter (\<lambda>ev. ev = Callback k True) (events (report_change env k st))
     = filter (\<lambda>ev. ev = Callback k True) (events st) @ [Callback k True]"
  by (simp_all add: report_change_def Let_def)

text \<open>What one round of the loop of \<^verbatim>\<open>check_for_changes\<close> on the path \<open>k\<close> leaves for
  another path \<open>p\<close>, and when it can block.\<close>

lemma check_file_frame:
  assumes c: "check_file env view now k st = (r, st')"
  shows "lock_held st' = lock_held st \<and> is_monitoring st' = is_monitoring st
     \<and> background_queue st' = background_queue st
     \<and> restoring_files st' \<subseteq> restoring_files st
     \<and> (k \<noteq> p \<longrightarrow> map_of (watched_files st') p = map_of (watched_files st) p)
     \<and> (k \<noteq> p \<longrightarrow> filter (notifies p) (events st') = filter (notifies p) (events st))
     \<and> (k \<notin> restoring_files st \<longrightarrow> r = Returns ())
     \<and> (r = Blocks \<or> r = Returns ())
     \<and> (r = Blocks \<longrightarrow> restoring_files st' = restoring_files st \<and> events st' = events st)"
proof (cases "view k")
  case None
  with c have "r = Returns () \<and> st' = cleanup_file env (Some k) st" by (simp add: check_file_def)
  then show ?thesis by (simp add: cleanup_file_watched)
next
  case (Some ob)
  show ?thesis
  proof (cases "map_of (watched_files st) k")
    case None
    with c Some have "r = Returns () \<and> st' = st" by (simp add: check_file_def)
    then show ?thesis by simp
  next
    case info: (Some file_info)
    show ?thesis
    proof (cases "o_size ob \<noteq> e_size file_info")
      case True
      with c Some info have "r = Returns () \<and> st' = st\<lparr>watched_files :=
                       AList.update k (file_info\<lparr>e_size := o_size ob, e_is_open := True\<rparr>)
                         (watched_files st)\<rparr>" by (simp add: check_file_def)
      then show ?thesis by (simp add: update_conv')
    next
      case same_size: False
      show ?thesis
      proof (cases "o_mtime ob \<noteq> e_mtime file_info")
        case False
        with c Some info same_size have "r = Returns () \<and> st' = st\<lparr>watched_files :=
                       AList.update k (file_info\<lparr>e_last_check := now\<rparr>) (watched_files st)\<rparr>"
          by (simp add: check_file_def)
        then show ?thesis by (simp add: update_conv')
      next
        case new_mtime: True
        show ?thesis
        proof (cases "o_hash ob")
          case (Inl e)
          with c Some info same_size new_mtime have "r = Returns () \<and> st' = st"
            by (simp add: check_file_def)
          then show ?thesis by simp
        next
          case (Inr h)
          let ?C = "e_is_open file_info \<and> o_closed ob \<and> h \<noteq> e_hash file_info"
          obtain r1 st1 where h1: "(if ?C then handle_file_closed env view now k h st
                                else (Returns (), st)) = (r1, st1)"
            by (cases "if ?C then handle_file_closed env view now k h st else (Returns (), st)")
          have f1: "lock_held st1 = lock_held st \<and> is_monitoring st1 = is_monitoring st
             \<and> background_queue st1 = background_queue st
             \<and> restoring_files st1 \<subseteq> restoring_files st
             \<and> (k \<noteq> p \<longrightarrow> map_of (watched_files st1) p = map_of (watched_files st) p)
             \<and> (k \<noteq> p \<longrightarrow> filter (notifies p) (events st1) = filter (notifies p) (events st))
             \<and> (k \<notin> restoring_files st \<longrightarrow> r1 \<noteq> Blocks)
             \<and> (r1 = Blocks \<longrightarrow> restoring_files st1 = restoring_files st \<and> events st1 = events st)"
          proof (cases ?C)
            case True
            with h1 have "handle_file_closed env view now k h st = (r1, st1)" by simp
            from handle_file_closed_frame [OF this, of p] show ?thesis by simp
          next
            case False
            with h1 have "r1 = Returns () \<and> st1 = st" by auto
            then show ?thesis by simp
          qed
          show ?thesis
          proof (cases r1)
            case Blocks
            with c Some info same_size new_mtime Inr h1 have "r = Blocks \<and> st' = st1"
              by (simp add: check_file_def Let_def)
            with f1 Blocks show ?thesis by simp
          next
            case (Raises e)
            with c Some info same_size new_mtime Inr h1 have "r = Returns () \<and> st' = st1"
              by (simp add: check_file_def Let_def)
            with f1 show ?thesis by simp
          next
            case (Returns u)
            with c Some info same_size new_mtime Inr h1 have r: "r = Returns ()"
              by (simp add: check_file_def Let_def)
            let ?st2 = "if h \<noteq> e_hash file_info then report_change env k st1 else st1"
            from c Some info same_size new_mtime Inr h1 Returns
            have st': "st' = ?st2\<lparr>watched_files := AList.update k
                ((case map_of (watched_files st1) k of None \<Rightarrow> file_info | Some i \<Rightarrow> i)
                   \<lparr>e_hash := h, e_mtime := o_mtime ob, e_is_open := \<not> o_closed ob,
                    e_last_check := now\<rparr>) (watched_files ?st2)\<rparr>"
              by (auto simp: check_file_def Let_def)
            have f2: "lock_held ?st2 = lock_held st1 \<and> is_monitoring ?st2 = is_monitoring st1
               \<and> background_queue ?st2 = background_queue st1
               \<and> restoring_files ?st2 = restoring_files st1
               \<and> watched_files ?st2 = watched_files st1
               \<and> (k \<noteq> p \<longrightarrow> filter (notifies p) (events ?st2) = filter (notifies p) (events st1))"
              by (simp add: report_change_fields)
            have "lock_held st' = lock_held st1 \<and> is_monitoring st' = is_monitoring st1
               \<and> background_queue st' = background_queue st1
               \<and> restoring_files st' = restoring_files st1
               \<and> (k \<noteq> p \<longrightarrow> map_of (watched_files st') p = map_of (watched_files st1) p)
               \<and> (k \<noteq> p \<longrightarrow> filter (notifies p) (events st') = filter (notifies p) (events st1))"
              unfolding st' using f2 by (simp add: update_conv')
            with f1 r show ?thesis by simp
          qed
        qed
      qed
    qed
  qed
qed

lemma check_loop_frame:
  assumes "check_loop env view now ks st = (r, st')" and "p \<notin> set ks"
  shows "lock_held st' = lock_held st \<and> is_monitoring st' = is_monitoring st
     \<and> background_queue st' = background_queue st
     \<and> restoring_files st' \<subseteq> restoring_files st
     \<and> map_of (watched_files st') p = map_of (watched_files st) p
     \<and> filter (notifies p) (events st') = filter (notifies p) (events st)
     \<and> (restoring_files st = {} \<longrightarrow> r = Returns ())
     \<and> (r = Blocks \<or> r = Returns ())"
  using assms
proof (induction ks arbitrary: st)
  case Nil
  then show ?case by simp
next
  case (Cons k ks)
  obtain r1 st1 where c1: "check_file env view now k st = (r1, st1)"
    by (cases "check_file env view now k st")
  from Cons.prems(2) have kp: "k \<noteq> p" and pks: "p \<notin> set ks" by auto
  note f = check_file_frame [OF c1, of p]
  show ?case
  proof (cases "r1 = Blocks")
    case True
    with Cons.prems(1) c1 have "r = Blocks \<and> st' = st1" by simp
    with f kp True show ?thesis by auto
  next
    case False
    with f have r1: "r1 = Returns ()" by simp
    with Cons.prems(1) c1 have l: "check_loop env view now ks st1 = (r, st')" by simp
    from Cons.IH [OF l pks] f kp show ?thesis by auto
  qed
qed

lemma filter_callback_notifies:
  "filter (notifies p) xs = filter (notifies p) ys
   \<Longrightarrow> filter (\<lambda>ev. ev = Callback p b) xs = filter (\<lambda>ev. ev = Callback p b) ys"
proof -
  assume a: "filter (notifies p) xs = filter (notifies p) ys"
  have "\<And>zs. filter (\<lambda>ev. ev = Callback p b) zs = filter (\<lambda>ev. ev = Callback p b) (filter (notifies p) zs)"
    by (induct_tac zs) auto
  then show ?thesis using a by metis
qed

lemma handle_file_closed_own:
  assumes h: "handle_file_closed env view now p hsh st = (r, st')"
    and nr: "p \<notin> restoring_files st" and ld: "load_succeeds env"
  shows "r = Returns () \<and> (\<exists>i. map_of (watched_files st') p = Some i)
     \<and> files_with_changes st' = files_with_changes st"
proof -
  obtain tracked where t: "(case version_manager_load env of
              None \<Rightarrow> Inr (fm_tracked_files st) | Some r \<Rightarrow> r) = Inr tracked"
    using ld by (auto simp: load_succeeds_def split: option.splits sum.splits)
  show ?thesis
    using h nr t
    by (auto simp: handle_file_closed_def Let_def update_conv' split: if_splits)
qed

text \<open>One round of the loop on the path \<open>p\<close> itself, when \<open>p\<close> is not being restored and
  the index loads: the callback is called exactly when the content has changed, and the
  entry is then brought up to the view.\<close>

lemma check_file_own:
  assumes c: "check_file env view now p st = (r, st')"
    and info: "map_of (watched_files st) p = Some e"
    and nr: "p \<notin> restoring_files st" and ld: "load_succeeds env"
  shows "r = Returns ()
     \<and> filter (\<lambda>ev. ev = Callback p True) (events st')
         = filter (\<lambda>ev. ev = Callback p True) (events st)
           @ (if content_changed view p e then [Callback p True] else [])
     \<and> (content_changed view p e \<longrightarrow> settled view p st')"
proof (cases "view p")
  case None
  with c have "r = Returns () \<and> st' = cleanup_file env (Some p) st" by (simp add: check_file_def)
  then show ?thesis using None by (simp add: content_changed_def)
next
  case (Some ob)
  show ?thesis
  proof (cases "o_size ob \<noteq> e_size e")
    case True
    with c Some info have "r = Returns () \<and> st' = st\<lparr>watched_files :=
                       AList.update p (e\<lparr>e_size := o_size ob, e_is_open := True\<rparr>)
                         (watched_files st)\<rparr>" by (simp add: check_file_def)
    then show ?thesis using Some True by (simp add: content_changed_def)
  next
    case same_size: False
    show ?thesis
    proof (cases "o_mtime ob \<noteq> e_mtime e")
      case False
      with c Some info same_size have "r = Returns () \<and> st' = st\<lparr>watched_files :=
                       AList.update p (e\<lparr>e_last_check := now\<rparr>) (watched_files st)\<rparr>"
        by (simp add: check_file_def)
      then show ?thesis using Some False by (simp add: content_changed_def)
    next
      case new_mtime: True
      show ?thesis
      proof (cases "o_hash ob")
        case (Inl x)
        with c Some info same_size new_mtime have "r = Returns () \<and> st' = st"
          by (simp add: check_file_def)
        then show ?thesis using Some Inl by (simp add: content_changed_def)
      next
        case (Inr h)
        let ?C = "e_is_open e \<and> o_closed ob \<and> h \<noteq> e_hash e"
        obtain r1 st1 where h1: "(if ?C then handle_file_closed env view now p h st
                                else (Returns (), st)) = (r1, st1)"
          by (cases "if ?C then handle_file_closed env view now p h st else (Returns (), st)")
        have f1: "r1 = Returns ()
           \<and> filter (\<lambda>ev. ev = Callback p True) (events st1) = filter (\<lambda>ev. ev = Callback p True) (events st)"
        proof (cases ?C)
          case True
          with h1 have hh: "handle_file_closed env view now p h st = (r1, st1)" by simp
          from handle_file_closed_own [OF hh nr ld] handle_file_closed_frame [OF hh, of p True]
          show ?thesis by simp
        next
          case False
          with h1 have "r1 = Returns () \<and> st1 = st" by auto
          then show ?thesis by simp
        qed
        let ?st2 = "if h \<noteq> e_hash e then report_change env p st1 else st1"
        from c Some info same_size new_mtime Inr h1 f1
        have r: "r = Returns ()" by (simp add: check_file_def Let_def)
        from c Some info same_size new_mtime Inr h1 f1
        have st': "st' = ?st2\<lparr>watched_files := AList.update p
                ((case map_of (watched_files st1) p of None \<Rightarrow> e | Some i \<Rightarrow> i)
                   \<lparr>e_hash := h, e_mtime := o_mtime ob, e_is_open := \<not> o_closed ob,
                    e_last_check := now\<rparr>) (watched_files ?st2)\<rparr>"
          by (auto simp: check_file_def Let_def)
        have cc: "content_changed view p e \<longleftrightarrow> h \<noteq> e_hash e"
          using Some same_size new_mtime Inr by (simp add: content_changed_def)
        have ev: "filter (\<lambda>ev. ev = Callback p True) (events st')
             = filter (\<lambda>ev. ev = Callback p True) (events st)
               @ (if h \<noteq> e_hash e then [Callback p True] else [])"
          unfolding st' using f1 by (simp add: report_change_fields)
        have sz: "e_size (case map_of (watched_files st1) p of None \<Rightarrow> e | Some i \<Rightarrow> i) = o_size ob"
        proof (cases ?C)
          case True
          with h1 have hh: "handle_file_closed env view now p h st = (r1, st1)" by simp
          then show ?thesis using Some ld
            by (auto simp: handle_file_closed_def Let_def update_conv' unmark_file_as_restoring_def
                with_lock_def load_succeeds_def split: if_splits option.splits sum.splits)
        next
          case False
          with h1 have "st1 = st" by auto
          then show ?thesis using info same_size by simp
        qed
        have "settled view p st'"
          unfolding st' settled_def using Some sz by (simp add: update_conv')
        with r ev cc show ?thesis by simp
      qed
    qed
  qed
qed

lemma check_file_settled:
  assumes c: "check_file env view now k st = (r, st')" and s: "settled view p st"
  shows "settled view p st' \<and> filter (notifies p) (events st') = filter (notifies p) (events st)"
proof (cases "k = p")
  case False
  from check_file_frame [OF c, of p] False
  have "map_of (watched_files st') p = map_of (watched_files st) p"
    and "filter (notifies p) (events st') = filter (notifies p) (events st)" by simp_all
  with s show ?thesis by (simp add: settled_def)
next
  case True
  show ?thesis
  proof (cases "view p")
    case None
    with c True have "st' = cleanup_file env (Some p) st" by (simp add: check_file_def)
    then show ?thesis using None by (simp add: settled_def split: option.splits)
  next
    case (Some ob)
    show ?thesis
    proof (cases "map_of (watched_files st) p")
      case None
      with c True Some have "st' = st" by (simp add: check_file_def)
      with s show ?thesis by simp
    next
      case info: (Some e)
      with s Some have fresh: "e_size e = o_size ob" "e_mtime e = o_mtime ob"
        by (simp_all add: settled_def)
      with c True Some info have "st' = st\<lparr>watched_files :=
                       AList.update p (e\<lparr>e_last_check := now\<rparr>) (watched_files st)\<rparr>"
        by (simp add: check_file_def)
      then show ?thesis using Some fresh by (simp add: settled_def update_conv')
    qed
  qed
qed

lemma check_loop_settled:
  assumes "check_loop env view now ks st = (r, st')" and "settled view p st"
  shows "settled view p st' \<and> filter (notifies p) (events st') = filter (notifies p) (events st)"
  using assms
proof (induction ks arbitrary: st)
  case Nil
  then show ?case by simp
next
  case (Cons k ks)
  obtain r1 st1 where c1: "check_file env view now k st = (r1, st1)"
    by (cases "check_file env view now k st")
  note f = check_file_settled [OF c1 Cons.prems(2)]
  show ?case
  proof (cases "r1 = Blocks")
    case True
    with Cons.prems(1) c1 have "st' = st1" by simp
    with f show ?thesis by simp
  next
    case False
    with Cons.prems(1) c1 have l: "check_loop env view now ks st1 = (r, st')"
      by (cases r1) simp_all
    from Cons.IH [OF l] f show ?thesis by simp
  qed
qed

lemma check_loop_callbacks:
  assumes "check_loop env view now ks st = (r, st')" and "distinct ks" and "p \<in> set ks"
    and "map_of (watched_files st) p = Some e" and "restoring_files st = {}"
    and ld: "load_succeeds env"
  shows "r = Returns ()
     \<and> filter (\<lambda>ev. ev = Callback p True) (events st')
         = filter (\<lambda>ev. ev = Callback p True) (events st)
           @ (if content_changed view p e then [Callback p True] else [])
     \<and> (content_changed view p e \<longrightarrow> settled view p st')
     \<and> lock_held st' = lock_held st"
  using assms(1-5)
proof (induction ks arbitrary: st)
  case Nil
  then show ?case by simp
next
  case (Cons k ks)
  obtain r1 st1 where c1: "check_file env view now k st = (r1, st1)"
    by (cases "check_file env view now k st")
  have nk: "k \<notin> restoring_files st" using Cons.prems(5) by simp
  note f = check_file_frame [OF c1, of p]
  from f nk have r1: "r1 = Returns ()" by simp
  with Cons.prems(1) c1 have l: "check_loop env view now ks st1 = (r, st')" by simp
  from f Cons.prems(5) have e1: "restoring_files st1 = {}" by auto
  show ?case
  proof (cases "k = p")
    case True
    then have pks: "p \<notin> set ks" using Cons.prems(2) by simp
    from check_file_own [OF c1 [unfolded True] Cons.prems(4) _ ld] Cons.prems(5)
    have o: "filter (\<lambda>ev. ev = Callback p True) (events st1)
         = filter (\<lambda>ev. ev = Callback p True) (events st)
           @ (if content_changed view p e then [Callback p True] else [])"
      and s: "content_changed view p e \<longrightarrow> settled view p st1" by simp_all
    note g = check_loop_frame [OF l pks]
    from g e1 have "r = Returns ()" by simp
    moreover from g have "filter (notifies p) (events st') = filter (notifies p) (events st1)" by simp
    then have "filter (\<lambda>ev. ev = Callback p True) (events st') = filter (\<lambda>ev. ev = Callback p True) (events st1)"
      by (rule filter_callback_notifies)
    moreover from g have "map_of (watched_files st') p = map_of (watched_files st1) p" by simp
    then have "settled view p st' = settled view p st1" by (simp add: settled_def)
    moreover from g f have "lock_held st' = lock_held st" by simp
    ultimately show ?thesis using o s by simp
  next
    case False
    then have pks: "p \<in> set ks" using Cons.prems(3) by simp
    from Cons.prems(2) have d: "distinct ks" by simp
    from f False Cons.prems(4) have i1: "map_of (watched_files st1) p = Some e" by simp
    from f False have "filter (notifies p) (events st1) = filter (notifies p) (events st)" by simp
    then have ev1: "filter (\<lambda>ev. ev = Callback p True) (events st1) = filter (\<lambda>ev. ev = Callback p True) (events st)"
      by (rule filter_callback_notifies)
    from Cons.IH [OF l d pks i1 e1] ev1 f show ?thesis by simp
  qed
qed

lemma check_for_changes_loop:
  assumes "is_monitoring st" "\<not> lock_held st"
    and "check_for_changes env view now st = (r, st')"
  shows "\<exists>s. check_loop env view now (map fst (watched_files st)) (st\<lparr>lock_held := True\<rparr>) = (r, s)
     \<and> events st' = events s \<and> watched_files st' = watched_files s
     \<and> restoring_files st' = restoring_files s
     \<and> lock_held st' = (r = Blocks)"
proof -
  obtain r1 s where l: "check_loop env view now (map fst (watched_files st)) (st\<lparr>lock_held := True\<rparr>) = (r1, s)"
    by (cases "check_loop env view now (map fst (watched_files st)) (st\<lparr>lock_held := True\<rparr>)")
  have lh: "lock_held s = True"
  proof (cases "check_loop env view now [] s")
    case (Pair a b)
    have "\<And>ks x y t. check_loop env view now ks t = (x, y) \<Longrightarrow> lock_held y = lock_held t"
    proof -
      fix ks x y t show "check_loop env view now ks t = (x, y) \<Longrightarrow> lock_held y = lock_held t"
      proof (induction ks arbitrary: t)
        case Nil then show ?case by simp
      next
        case (Cons k ks)
        obtain r2 t2 where c2: "check_file env view now k t = (r2, t2)"
          by (cases "check_file env view now k t")
        from check_file_frame [OF c2, of k] have a: "lock_held t2 = lock_held t" by simp
        show ?case
        proof (cases "r2 = Blocks")
          case True with Cons.prems c2 a show ?thesis by simp
        next
          case False
          with Cons.prems c2 have "check_loop env view now ks t2 = (x, y)" by (cases r2) simp_all
          from Cons.IH [OF this] a show ?thesis by simp
        qed
      qed
    qed
    from this [OF l] show ?thesis by simp
  qed
  from assms l have "r = r1 \<and> st' = (if r1 = Blocks then s else s\<lparr>lock_held := False\<rparr>)"
    by (cases r1) (auto simp: check_for_changes_def with_lock_def)
  with l lh show ?thesis by auto
qed

text \<open>
  C2. On a poll with no file being restored and an index that loads, the change callback
  is called with \<open>(path, True)\<close> for a watched path exactly when the file has the stored
  size, another modification time and another content hash than the entry, once: whether
  the entry was open and whether the file is observed closed decide only the close
  event. The poll stores the new hash and time, so the next poll of the same file calls
  nothing.
\<close>

theorem change_callback_per_modification:
  "is_monitoring st \<and> \<not> lock_held st \<and> restoring_files st = {} \<and> load_succeeds env
   \<and> distinct (map fst (watched_files st)) \<and> map_of (watched_files st) p = Some e
   \<and> check_for_changes env view now st = (r, st1)
   \<and> check_for_changes env view later st1 = (r2, st2)
   \<longrightarrow> r = Returns ()
       \<and> filter (\<lambda>ev. ev = Callback p True) (events st1)
           = filter (\<lambda>ev. ev = Callback p True) (events st)
             @ (if content_changed view p e then [Callback p True] else [])
       \<and> (content_changed view p e \<longrightarrow>
            filter (\<lambda>ev. ev = Callback p True) (events st2)
              = filter (\<lambda>ev. ev = Callback p True) (events st1))"
proof
  assume a: "is_monitoring st \<and> \<not> lock_held st \<and> restoring_files st = {} \<and> load_succeeds env
   \<and> distinct (map fst (watched_files st)) \<and> map_of (watched_files st) p = Some e
   \<and> check_for_changes env view now st = (r, st1)
   \<and> check_for_changes env view later st1 = (r2, st2)"
  then have mon: "is_monitoring st" and nl: "\<not> lock_held st" and nr: "restoring_files st = {}"
    and ld: "load_succeeds env" and d: "distinct (map fst (watched_files st))"
    and info: "map_of (watched_files st) p = Some e"
    and c1: "check_for_changes env view now st = (r, st1)"
    and c2: "check_for_changes env view later st1 = (r2, st2)" by simp_all
  from check_for_changes_loop [OF mon nl c1] obtain s where
    l: "check_loop env view now (map fst (watched_files st)) (st\<lparr>lock_held := True\<rparr>) = (r, s)"
    and es: "events st1 = events s" and ws: "watched_files st1 = watched_files s"
    and lk: "lock_held st1 = (r = Blocks)" by blast
  have pin: "p \<in> set (map fst (watched_files st))"
    using info by (metis map_of_eq_None_iff option.distinct(1) set_map)
  from check_loop_callbacks [OF l d pin _ _ ld, of e] info nr
  have r: "r = Returns ()"
    and ev: "filter (\<lambda>ev. ev = Callback p True) (events s)
         = filter (\<lambda>ev. ev = Callback p True) (events st)
           @ (if content_changed view p e then [Callback p True] else [])"
    and se: "content_changed view p e \<longrightarrow> settled view p s" by simp_all
  have second: "filter (\<lambda>ev. ev = Callback p True) (events st2)
              = filter (\<lambda>ev. ev = Callback p True) (events st1)" if cc: "content_changed view p e"
  proof (cases "is_monitoring st1")
    case False
    with c2 have "st2 = st1" by (simp add: check_for_changes_def)
    then show ?thesis by simp
  next
    case True
    from cc se ws have s1: "settled view p st1" by (simp add: settled_def)
    from lk r have nl1: "\<not> lock_held st1" by simp
    from check_for_changes_loop [OF True nl1 c2] obtain s2 where
      l2: "check_loop env view later (map fst (watched_files st1)) (st1\<lparr>lock_held := True\<rparr>) = (r2, s2)"
      and es2: "events st2 = events s2" by blast
    have "settled view p (st1\<lparr>lock_held := True\<rparr>)" using s1 by (simp add: settled_def)
    from check_loop_settled [OF l2 this]
    have "filter (notifies p) (events s2) = filter (notifies p) (events st1)" by simp
    then have "filter (\<lambda>ev. ev = Callback p True) (events s2) = filter (\<lambda>ev. ev = Callback p True) (events st1)"
      by (rule filter_callback_notifies)
    with es2 show ?thesis by simp
  qed
  from r ev es second
  show "r = Returns ()
       \<and> filter (\<lambda>ev. ev = Callback p True) (events st1)
           = filter (\<lambda>ev. ev = Callback p True) (events st)
             @ (if content_changed view p e then [Callback p True] else [])
       \<and> (content_changed view p e \<longrightarrow>
            filter (\<lambda>ev. ev = Callback p True) (events st2)
              = filter (\<lambda>ev. ev = Callback p True) (events st1))"
    by simp
qed

theorem change_callback_per_modification_witness:
  "(is_monitoring sample_fm_state \<and> \<not> lock_held sample_fm_state
    \<and> restoring_files sample_fm_state = {} \<and> load_succeeds sample_fm_env
    \<and> distinct (map fst (watched_files sample_fm_state))
    \<and> map_of (watched_files sample_fm_state) (path_str sample_path)
        = Some \<lparr>e_hash = ''a1'', e_mtime = 1, e_last_check = 1, e_is_open = True, e_size = 5\<rparr>
    \<and> content_changed (sample_view 2 ''b2'' True) (path_str sample_path)
        \<lparr>e_hash = ''a1'', e_mtime = 1, e_last_check = 1, e_is_open = True, e_size = 5\<rparr>
    \<and> filter (\<lambda>ev. ev = Callback (path_str sample_path) True) (events sample_fm_state) = [])
   \<and> fst (check_for_changes sample_fm_env (sample_view 2 ''b2'' True) 10 sample_fm_state) = Returns ()
   \<and> filter (\<lambda>ev. ev = Callback (path_str sample_path) True) (events sample_fm_closed)
       = [Callback (path_str sample_path) True]
   \<and> filter (\<lambda>ev. ev = Callback (path_str sample_path) True)
        (events (snd (check_for_changes sample_fm_env (sample_view 2 ''b2'' True) 11 sample_fm_closed)))
       = filter (\<lambda>ev. ev = Callback (path_str sample_path) True) (events sample_fm_closed)"
proof -
  let ?p = "path_str sample_path"
  let ?e = "\<lparr>e_hash = ''a1'', e_mtime = 1, e_last_check = 1, e_is_open = True, e_size = 5\<rparr>"
  let ?v = "sample_view 2 ''b2'' True"
  have h: "is_monitoring sample_fm_state \<and> \<not> lock_held sample_fm_state
    \<and> restoring_files sample_fm_state = {} \<and> load_succeeds sample_fm_env
    \<and> distinct (map fst (watched_files sample_fm_state))
    \<and> map_of (watched_files sample_fm_state) ?p = Some ?e
    \<and> content_changed ?v ?p ?e
    \<and> filter (\<lambda>ev. ev = Callback ?p True) (events sample_fm_state) = []"
    by code_simp
  have c1: "check_for_changes sample_fm_env ?v 10 sample_fm_state
      = (fst (check_for_changes sample_fm_env ?v 10 sample_fm_state), sample_fm_closed)"
    by (simp add: sample_fm_closed_def)
  have c2: "check_for_changes sample_fm_env ?v 11 sample_fm_closed
      = (fst (check_for_changes sample_fm_env ?v 11 sample_fm_closed),
         snd (check_for_changes sample_fm_env ?v 11 sample_fm_closed))"
    by simp
  from change_callback_per_modification [where st = sample_fm_state and env = sample_fm_env
      and p = ?p and e = ?e and view = ?v and now = 10 and later = 11
      and r = "fst (check_for_changes sample_fm_env ?v 10 sample_fm_state)" and ?st1.0 = sample_fm_closed
      and ?r2.0 = "fst (check_for_changes sample_fm_env ?v 11 sample_fm_closed)"
      and ?st2.0 = "snd (check_for_changes sample_fm_env ?v 11 sample_fm_closed)"] h c1 c2
  show ?thesis by simp
qed

theorem callback_without_close_counterexample:
  "map_of (watched_files sample_fm_closed) (path_str sample_path)
     = Some \<lparr>e_hash = ''b2'', e_mtime = 2, e_last_check = 10, e_is_open = False, e_size = 5\<rparr>
   \<and> events (snd (check_for_changes sample_fm_env (sample_view 3 ''c3'' True) 20 sample_fm_closed))
       = events sample_fm_closed @ [Callback (path_str sample_path) True]
   \<and> o_closed (the (sample_view 2 ''b2'' False (path_str sample_path))) = False
   \<and> events (snd (check_for_changes sample_fm_env (sample_view 2 ''b2'' False) 10 sample_fm_state))
       = [TrayStatus True 1 {path_str sample_path}, Callback (path_str sample_path) True]"
  by code_simp

subsection \<open>Reset after a restore, and the close event of a file being restored\<close>

lemma set_file_task_settled:
  assumes t: "set_file_task env view now path st = (r, st')" and s: "settled view p st"
  shows "settled view p st' \<and> filter (notifies p) (events st') = filter (notifies p) (events st)
     \<and> is_monitoring st' = is_monitoring st"
proof (cases "lock_held st")
  case True
  with t have "st' = st" by (simp add: set_file_task_def with_lock_def)
  with s show ?thesis by simp
next
  case False
  let ?s = "st\<lparr>lock_held := True\<rparr>"
  have s': "settled view p ?s" using s by (simp add: settled_def)
  show ?thesis
  proof (cases "case path of None \<Rightarrow> None | Some q \<Rightarrow> if q = [] then None else view q")
    case None
    with t False have st': "st' = (cleanup_file env path ?s)\<lparr>lock_held := False\<rparr>"
      by (simp add: set_file_task_def with_lock_def)
    have "map_of (watched_files (cleanup_file env path ?s)) p = None
        \<or> map_of (watched_files (cleanup_file env path ?s)) p = map_of (watched_files st) p"
      by (cases path) (simp_all add: cleanup_file_def Let_def delete_conv')
    then have "settled view p st'" using s unfolding st' by (auto simp: settled_def)
    then show ?thesis unfolding st' by simp
  next
    case (Some ob)
    then obtain q where q: "path = Some q" "q \<noteq> []" "view q = Some ob"
      by (cases path) (auto split: if_splits)
    show ?thesis
    proof (cases "o_hash ob")
      case (Inl x)
      with t False Some have "st' = ?s\<lparr>lock_held := False\<rparr>"
        by (simp add: set_file_task_def with_lock_def)
      then show ?thesis using s by (simp add: settled_def)
    next
      case (Inr h)
      with t False Some q have st': "st' = ?s\<lparr>watched_files :=
                             AList.update q
                               \<lparr>e_hash = h, e_mtime = o_mtime ob, e_last_check = now,
                                e_is_open = True, e_size = o_size ob\<rparr>
                               (watched_files ?s),
                           active_files := insert q (active_files ?s), lock_held := False\<rparr>"
        by (simp add: set_file_task_def with_lock_def)
      show ?thesis unfolding st' using s q by (auto simp: settled_def update_conv')
    qed
  qed
qed

lemma check_for_changes_settled:
  assumes c: "check_for_changes env view now st = (r, st')" and s: "settled view p st"
  shows "settled view p st' \<and> filter (notifies p) (events st') = filter (notifies p) (events st)"
proof (cases "is_monitoring st \<and> \<not> lock_held st")
  case False
  with c have "st' = st" by (auto simp: check_for_changes_def with_lock_def split: if_splits)
  with s show ?thesis by simp
next
  case True
  then have mon: "is_monitoring st" and nl: "\<not> lock_held st" by simp_all
  from check_for_changes_loop [OF mon nl c] obtain s1 where
    l: "check_loop env view now (map fst (watched_files st)) (st\<lparr>lock_held := True\<rparr>) = (r, s1)"
    and es: "events st' = events s1" and ws: "watched_files st' = watched_files s1" by blast
  have "settled view p (st\<lparr>lock_held := True\<rparr>)" using s by (simp add: settled_def)
  from check_loop_settled [OF l this] es ws show ?thesis by (simp add: settled_def)
qed

lemma background_round_settled:
  assumes b: "background_round env view now st = (r, st')" and s: "settled view p st"
  shows "filter (notifies p) (events st') = filter (notifies p) (events st)"
proof -
  let ?t = "case background_queue st of
              [] \<Rightarrow> (Returns (), st)
            | SetFileTask path # rest \<Rightarrow>
                set_file_task env view now path (st\<lparr>background_queue := rest\<rparr>)"
  obtain r1 st1 where t: "?t = (r1, st1)" by (cases ?t)
  have f1: "settled view p st1 \<and> filter (notifies p) (events st1) = filter (notifies p) (events st)"
  proof (cases "background_queue st")
    case Nil
    with t have "st1 = st" by simp
    with s show ?thesis by simp
  next
    case (Cons a rest)
    obtain path where a: "a = SetFileTask path" by (cases a)
    with t Cons have tt: "set_file_task env view now path (st\<lparr>background_queue := rest\<rparr>) = (r1, st1)"
      by simp
    have "settled view p (st\<lparr>background_queue := rest\<rparr>)" using s by (simp add: settled_def)
    from set_file_task_settled [OF tt this] show ?thesis by simp
  qed
  show ?thesis
  proof (cases "r1 = Returns () \<and> is_monitoring st1")
    case False
    with b t have "st' = st1" by (cases r1) (auto simp: background_round_def)
    with f1 show ?thesis by simp
  next
    case True
    obtain r2 st2 where c: "check_for_changes env view now st1 = (r2, st2)"
      by (cases "check_for_changes env view now st1")
    with b t True have "st' = st2" by (cases r2) (auto simp: background_round_def)
    with check_for_changes_settled [OF c] f1 show ?thesis by simp
  qed
qed

lemma force_reset_monitoring_result:
  assumes "\<not> lock_held st"
  shows "\<exists>st1. force_reset_monitoring env p st = (Returns (), st1)
     \<and> p \<notin> restoring_files st1 \<and> map_of (watched_files st1) p = None
     \<and> \<not> lock_held st1
     \<and> filter (notifies p) (events st1) = filter (notifies p) (events st)"
  using assms
  by (simp add: force_reset_monitoring_def with_lock_def Let_def set_file_def delete_conv')

lemma check_for_changes_blocks:
  assumes mon: "is_monitoring st" and nl: "\<not> lock_held st"
    and w: "watched_files st = (p, e) # rest" and rs: "p \<in> restoring_files st"
    and ld: "load_succeeds env" and op: "e_is_open e"
    and cc: "content_changed view p e" and oc: "observed_closed view p"
  shows "fst (check_for_changes env view now st) = Blocks
     \<and> p \<in> restoring_files (snd (check_for_changes env view now st))
     \<and> lock_held (snd (check_for_changes env view now st))
     \<and> events (snd (check_for_changes env view now st)) = events st"
proof -
  from cc obtain ob h where ob: "view p = Some ob" "o_size ob = e_size e" "o_mtime ob \<noteq> e_mtime e"
    "o_hash ob = Inr h" "h \<noteq> e_hash e"
    by (auto simp: content_changed_def split: option.splits sum.splits)
  from oc ob have cl: "o_closed ob" by (simp add: observed_closed_def)
  obtain tracked where t: "(case version_manager_load env of
              None \<Rightarrow> Inr (fm_tracked_files st) | Some r \<Rightarrow> r) = Inr tracked"
    using ld by (auto simp: load_succeeds_def split: option.splits sum.splits)
  let ?s = "st\<lparr>lock_held := True\<rparr>"
  have t': "(case version_manager_load env of
              None \<Rightarrow> Inr (fm_tracked_files ?s) | Some r \<Rightarrow> r) = Inr tracked"
    using t by (simp split: option.splits)
  have hh: "fst (handle_file_closed env view now p h ?s) = Blocks
     \<and> p \<in> restoring_files (snd (handle_file_closed env view now p h ?s))
     \<and> lock_held (snd (handle_file_closed env view now p h ?s))
     \<and> events (snd (handle_file_closed env view now p h ?s)) = events st"
    using rs t' by (simp add: handle_file_closed_def Let_def unmark_file_as_restoring_def with_lock_def)
  obtain r1 s1 where h1: "handle_file_closed env view now p h ?s = (r1, s1)"
    by (cases "handle_file_closed env view now p h ?s")
  with hh have r1: "r1 = Blocks" and s1: "p \<in> restoring_files s1" "lock_held s1" "events s1 = events st"
    by simp_all
  have cf: "check_file env view now p ?s = (Blocks, s1)"
    using ob cl op w h1 r1 by (simp add: check_file_def Let_def)
  have "check_loop env view now (map fst (watched_files st)) ?s = (Blocks, s1)"
    using w cf by simp
  then have "check_for_changes env view now st = (Blocks, s1)"
    using mon nl by (simp add: check_for_changes_def with_lock_def)
  with s1 show ?thesis by simp
qed

text \<open>
  C4. After \<^verbatim>\<open>force_reset_monitoring\<close> the path is not marked as being restored and has no
  entry, and the next round of the background thread, whatever it sees and whichever task
  it runs first, calls neither the change callback nor the commit dialog for the path. But
  the close event of a file that is marked as being restored is not swallowed: on the poll
  that sees the marked file closed with changed content, \<^verbatim>\<open>check_for_changes\<close> holds the lock
  and \<^verbatim>\<open>_handle_file_closed\<close> calls \<^verbatim>\<open>unmark_file_as_restoring\<close>, which waits for the same
  lock: the poll never returns, the mark stays, and the lock stays held.
\<close>

theorem restore_reset_then_poll:
  "(\<not> lock_held st \<longrightarrow>
      (\<exists>st1. force_reset_monitoring env p st = (Returns (), st1)
         \<and> p \<notin> restoring_files st1
         \<and> (\<forall>view now r st2. background_round env view now st1 = (r, st2) \<longrightarrow>
               filter (notifies p) (events st2) = filter (notifies p) (events st1))))
   \<and> (is_monitoring st \<and> \<not> lock_held st \<and> watched_files st = (p, e) # rest
        \<and> p \<in> restoring_files st \<and> load_succeeds env \<and> e_is_open e
        \<and> content_changed view p e \<and> observed_closed view p \<longrightarrow>
      fst (check_for_changes env view now st) = Blocks
      \<and> p \<in> restoring_files (snd (check_for_changes env view now st))
      \<and> lock_held (snd (check_for_changes env view now st))
      \<and> events (snd (check_for_changes env view now st)) = events st)"
proof (intro conjI impI)
  assume nl: "\<not> lock_held st"
  from force_reset_monitoring_result [OF nl, of env p] obtain st1 where
    f: "force_reset_monitoring env p st = (Returns (), st1)" and nr: "p \<notin> restoring_files st1"
    and ne: "map_of (watched_files st1) p = None" by blast
  have q: "\<forall>view now r st2. background_round env view now st1 = (r, st2) \<longrightarrow>
               filter (notifies p) (events st2) = filter (notifies p) (events st1)"
  proof (intro allI impI)
    fix view now r st2
    assume b: "background_round env view now st1 = (r, st2)"
    have "settled view p st1" using ne by (simp add: settled_def)
    with b show "filter (notifies p) (events st2) = filter (notifies p) (events st1)"
      by (rule background_round_settled)
  qed
  from f nr q show "\<exists>st1. force_reset_monitoring env p st = (Returns (), st1)
         \<and> p \<notin> restoring_files st1
         \<and> (\<forall>view now r st2. background_round env view now st1 = (r, st2) \<longrightarrow>
               filter (notifies p) (events st2) = filter (notifies p) (events st1))"
    by blast
next
  assume a: "is_monitoring st \<and> \<not> lock_held st \<and> watched_files st = (p, e) # rest
        \<and> p \<in> restoring_files st \<and> load_succeeds env \<and> e_is_open e
        \<and> content_changed view p e \<and> observed_closed view p"
  then have b: "fst (check_for_changes env view now st) = Blocks
      \<and> p \<in> restoring_files (snd (check_for_changes env view now st))
      \<and> lock_held (snd (check_for_changes env view now st))
      \<and> events (snd (check_for_changes env view now st)) = events st"
    by (elim conjE) (rule check_for_changes_blocks)
  from b show "fst (check_for_changes env view now st) = Blocks" by simp
  from b show "p \<in> restoring_files (snd (check_for_changes env view now st))" by simp
  from b show "lock_held (snd (check_for_changes env view now st))" by simp
  from b show "events (snd (check_for_changes env view now st)) = events st" by simp
qed

theorem restore_reset_then_poll_witness:
  "(\<not> lock_held sample_fm_closed
    \<and> is_monitoring sample_fm_restoring \<and> \<not> lock_held sample_fm_restoring
    \<and> watched_files sample_fm_restoring
        = (path_str sample_path,
           \<lparr>e_hash = ''a1'', e_mtime = 1, e_last_check = 1, e_is_open = True, e_size = 5\<rparr>) # []
    \<and> path_str sample_path \<in> restoring_files sample_fm_restoring
    \<and> load_succeeds sample_fm_env
    \<and> e_is_open \<lparr>e_hash = ''a1'', e_mtime = 1, e_last_check = 1, e_is_open = True, e_size = 5\<rparr>
    \<and> content_changed (sample_view 2 ''b2'' True) (path_str sample_path)
        \<lparr>e_hash = ''a1'', e_mtime = 1, e_last_check = 1, e_is_open = True, e_size = 5\<rparr>
    \<and> observed_closed (sample_view 2 ''b2'' True) (path_str sample_path))
   \<and> fst (force_reset_monitoring sample_fm_env (path_str sample_path) sample_fm_closed) = Returns ()
   \<and> path_str sample_path
       \<notin> restoring_files (snd (force_reset_monitoring sample_fm_env (path_str sample_path) sample_fm_closed))
   \<and> filter (notifies (path_str sample_path))
        (events (snd (background_round sample_fm_env (sample_view 5 ''a1'' True) 30
           (snd (force_reset_monitoring sample_fm_env (path_str sample_path) sample_fm_closed)))))
       = filter (notifies (path_str sample_path))
           (events (snd (force_reset_monitoring sample_fm_env (path_str sample_path) sample_fm_closed)))
   \<and> fst (check_for_changes sample_fm_env (sample_view 2 ''b2'' True) 10 sample_fm_restoring) = Blocks
   \<and> path_str sample_path
       \<in> restoring_files (snd (check_for_changes sample_fm_env (sample_view 2 ''b2'' True) 10
                                 sample_fm_restoring))
   \<and> lock_held (snd (check_for_changes sample_fm_env (sample_view 2 ''b2'' True) 10 sample_fm_restoring))
   \<and> events (snd (check_for_changes sample_fm_env (sample_view 2 ''b2'' True) 10 sample_fm_restoring))
       = events sample_fm_restoring"
proof -
  let ?p = "path_str sample_path"
  let ?e = "\<lparr>e_hash = ''a1'', e_mtime = 1, e_last_check = 1, e_is_open = True, e_size = 5\<rparr>"
  let ?v = "sample_view 2 ''b2'' True"
  let ?w = "sample_view 5 ''a1'' True"
  have h: "\<not> lock_held sample_fm_closed
    \<and> is_monitoring sample_fm_restoring \<and> \<not> lock_held sample_fm_restoring
    \<and> watched_files sample_fm_restoring = (?p, ?e) # []
    \<and> ?p \<in> restoring_files sample_fm_restoring
    \<and> load_succeeds sample_fm_env
    \<and> e_is_open ?e
    \<and> content_changed ?v ?p ?e
    \<and> observed_closed ?v ?p"
    by code_simp
  from restore_reset_then_poll [where st = sample_fm_closed and env = sample_fm_env and p = ?p,
      THEN conjunct1] h
  obtain st1 where f: "force_reset_monitoring sample_fm_env ?p sample_fm_closed = (Returns (), st1)"
    and nr: "?p \<notin> restoring_files st1"
    and q: "\<forall>view now r st2. background_round sample_fm_env view now st1 = (r, st2) \<longrightarrow>
               filter (notifies ?p) (events st2) = filter (notifies ?p) (events st1)"
    by blast
  have b: "background_round sample_fm_env ?w 30 st1
      = (fst (background_round sample_fm_env ?w 30 st1), snd (background_round sample_fm_env ?w 30 st1))"
    by simp
  from q b have r1: "filter (notifies ?p) (events (snd (background_round sample_fm_env ?w 30 st1)))
      = filter (notifies ?p) (events st1)" by blast
  note r2 = restore_reset_then_poll [where st = sample_fm_restoring and env = sample_fm_env and p = ?p
      and e = ?e and rest = "[]" and view = ?v and now = 10, THEN conjunct2]
  from f nr r1 r2 h show ?thesis by simp
qed

end
